theory Spec2Isabelle
  imports Complex_Main
begin

section \<open>The benchmark extractor of \<^verbatim>\<open>cache_coloring/analysis.py\<close>\<close>

text \<open>
  The script reads result files two lines at a time, looks for a dataset marker and
  collects the values of the metrics \<^verbatim>\<open>disparity\<close>, \<^verbatim>\<open>mser\<close> and \<^verbatim>\<open>tracking\<close>
  into one list per access pattern. Python exceptions are values of \<open>error\<close>; a function
  that may raise returns \<open>error + 'a\<close>, and the scan loop, which may run forever, returns
  an \<open>option\<close> of that (\<open>None\<close>: the loop never ends).

  The extractor only stores the measured values: they have an arbitrary type \<open>'v\<close>, and the
  conversion \<^verbatim>\<open>float(line2)\<close> is a parameter \<open>pf\<close> of type \<open>string \<Rightarrow> 'v option\<close>
  (\<open>None\<close>: \<^verbatim>\<open>ValueError\<close>). The normalizer computes with them: there they are floating-point
  numbers.
\<close>

subsection \<open>Errors\<close>

datatype error =
    FileNotFoundError string
  | ValueError string
  | IndexError
  | KeyError string
  | ZeroDivisionError

subsection \<open>Lines of a text file\<close>

text \<open>
  \<^verbatim>\<open>str.strip()\<close> removes leading and trailing whitespace. Characters are the 8-bit
  \<open>char\<close>; the whitespace characters are those of \<^verbatim>\<open>str.isspace\<close> below code point 256.
\<close>

definition isspace :: "char \<Rightarrow> bool" where
  "isspace c =
     (let n = (of_char c :: nat)
      in (9 \<le> n \<and> n \<le> 13) \<or> (28 \<le> n \<and> n \<le> 32) \<or> n = 133 \<or> n = 160)"

definition strip :: "string \<Rightarrow> string" where
  "strip s = rev (dropWhile isspace (rev (dropWhile isspace s)))"

text \<open>
  An open file is the list of the lines not read yet. \<^verbatim>\<open>file.readline()\<close> returns the next
  line and advances; at the end of the file it returns the empty string, for ever.
\<close>

definition readline :: "string list \<Rightarrow> string \<times> string list" where
  "readline f = (case f of [] \<Rightarrow> ([], []) | l # ls \<Rightarrow> (l, ls))"

subsection \<open>One iteration of the scan loop\<close>

text \<open>
  The local variables of the \<^verbatim>\<open>while True\<close> loop of \<^verbatim>\<open>per_vision_data\<close>: the file, the
  two lines of the current pair, the flag \<^verbatim>\<open>collect_data\<close> (0 or 1 in the source, a
  \<open>bool\<close> here) and the three lists \<^verbatim>\<open>disparity[t]\<close>, \<^verbatim>\<open>mser[t]\<close>, \<^verbatim>\<open>tracking[t]\<close>
  the loop appends to.
\<close>

record 'v scan_state =
  file_lines :: "string list"
  line1 :: string
  line2 :: string
  collect_data :: bool
  disparity_t :: "'v list"
  mser_t :: "'v list"
  tracking_t :: "'v list"

datatype 'v step = Break "'v scan_state" | Next "'v scan_state"

text \<open>Lines 56 to 61: the \<^verbatim>\<open>if\<close>/\<^verbatim>\<open>elif\<close> chain on \<^verbatim>\<open>line1\<close>.\<close>

definition collect_metric :: "(string \<Rightarrow> 'v option) \<Rightarrow> 'v scan_state \<Rightarrow> error + 'v scan_state" where
  "collect_metric pf st =
     (if line1 st = ''disparity'' then
        (case pf (line2 st) of
           None \<Rightarrow> Inl (ValueError (line2 st))
         | Some v \<Rightarrow> Inr (st\<lparr>disparity_t := disparity_t st @ [v]\<rparr>))
      else if line1 st = ''mser'' then
        (case pf (line2 st) of
           None \<Rightarrow> Inl (ValueError (line2 st))
         | Some v \<Rightarrow> Inr (st\<lparr>mser_t := mser_t st @ [v]\<rparr>))
      else if line1 st = ''tracking'' then
        (case pf (line2 st) of
           None \<Rightarrow> Inl (ValueError (line2 st))
         | Some v \<Rightarrow> Inr (st\<lparr>tracking_t := tracking_t st @ [v]\<rparr>))
      else Inr st)"

text \<open>\<^verbatim>\<open>s[0]\<close> raises \<^verbatim>\<open>IndexError\<close> on the empty string.\<close>

definition char0 :: "string \<Rightarrow> error + char" where
  "char0 s = (case s of [] \<Rightarrow> Inl IndexError | c # _ \<Rightarrow> Inr c)"

text \<open>Line 66: \<^verbatim>\<open>line1[0] == '-' or line2[0] == '-'\<close>, the second test only if the first fails.\<close>

definition dash_test :: "string \<Rightarrow> string \<Rightarrow> error + bool" where
  "dash_test l1 l2 =
     (case char0 l1 of
        Inl e \<Rightarrow> Inl e
      | Inr c1 \<Rightarrow>
          if c1 = CHR ''-'' then Inr True
          else (case char0 l2 of Inl e \<Rightarrow> Inl e | Inr c2 \<Rightarrow> Inr (c2 = CHR ''-'')))"

text \<open>Lines 68 to 71: the marker as the second line of the pair.\<close>

definition marker_second :: "string \<Rightarrow> 'v scan_state \<Rightarrow> 'v scan_state" where
  "marker_second dataset st =
     (if line2 st = dataset then
        (let (r3, f3) = readline (file_lines st)
         in st\<lparr>file_lines := f3, line1 := line2 st, line2 := strip r3, collect_data := True\<rparr>)
      else st)"

text \<open>Lines 72 and 73: the marker as the first line of the pair.\<close>

definition marker_first :: "string \<Rightarrow> 'v scan_state \<Rightarrow> 'v scan_state" where
  "marker_first dataset st = (if line1 st = dataset then st\<lparr>collect_data := True\<rparr> else st)"

text \<open>Lines 49 to 73: the body of the loop, from the two reads to the end of the iteration.\<close>

definition scan_body :: "string \<Rightarrow> (string \<Rightarrow> 'v option) \<Rightarrow> 'v scan_state \<Rightarrow> error + 'v step" where
  "scan_body dataset pf st =
     (let (r1, f1) = readline (file_lines st);
          (r2, f2) = readline f1;
          st1 = st\<lparr>file_lines := f2, line1 := strip r1, line2 := strip r2\<rparr>
      in case (if collect_data st1 then collect_metric pf st1 else Inr st1) of
           Inl e \<Rightarrow> Inl e
         | Inr st2 \<Rightarrow>
             if collect_data st2 \<and> (line1 st2 = [] \<or> line2 st2 = []) then Inr (Break st2)
             else
               (case (if collect_data st2 then dash_test (line1 st2) (line2 st2) else Inr False) of
                  Inl e \<Rightarrow> Inl e
                | Inr True \<Rightarrow> Inr (Break st2)
                | Inr False \<Rightarrow> Inr (Next (marker_first dataset (marker_second dataset st2)))))"

subsection \<open>The scan loop\<close>

text \<open>
  \<^verbatim>\<open>while True\<close>: the loop ends at a \<^verbatim>\<open>break\<close> or at an exception, and not at all
  otherwise.
\<close>

partial_function (option) scan_loop ::
  "string \<Rightarrow> (string \<Rightarrow> 'v option) \<Rightarrow> 'v scan_state \<Rightarrow> (error + 'v scan_state) option" where
  "scan_loop dataset pf st =
     (case scan_body dataset pf st of
        Inl e \<Rightarrow> Some (Inl e)
      | Inr (Break st') \<Rightarrow> Some (Inr st')
      | Inr (Next st') \<Rightarrow> scan_loop dataset pf st')"

declare scan_loop.simps [code]

text \<open>
  Lines 46 to 73 for one file: the scan starts at the first line with \<^verbatim>\<open>collect_data = 0\<close>
  and works on the three lists of the current access pattern. The variables \<^verbatim>\<open>line1\<close> and
  \<^verbatim>\<open>line2\<close> are assigned before they are read, so their initial value does not matter.
\<close>

type_synonym 'v lists3 = "'v list \<times> 'v list \<times> 'v list"

definition init_state :: "string list \<Rightarrow> 'v lists3 \<Rightarrow> 'v scan_state" where
  "init_state ls acc =
     (case acc of (d, m, tr) \<Rightarrow>
        \<lparr>file_lines = ls, line1 = [], line2 = [], collect_data = False,
         disparity_t = d, mser_t = m, tracking_t = tr\<rparr>)"

definition lists_of :: "'v scan_state \<Rightarrow> 'v lists3" where
  "lists_of st = (disparity_t st, mser_t st, tracking_t st)"

definition result_lists :: "(error + 'v scan_state) option \<Rightarrow> (error + 'v lists3) option" where
  "result_lists r =
     (case r of
        None \<Rightarrow> None
      | Some (Inl e) \<Rightarrow> Some (Inl e)
      | Some (Inr st) \<Rightarrow> Some (Inr (lists_of st)))"

definition scan_file ::
  "string \<Rightarrow> (string \<Rightarrow> 'v option) \<Rightarrow> string list \<Rightarrow> 'v lists3 \<Rightarrow> (error + 'v lists3) option" where
  "scan_file dataset pf ls acc = result_lists (scan_loop dataset pf (init_state ls acc))"

subsection \<open>Interference sizes and file names\<close>

text \<open>
  \<^verbatim>\<open>range(start, stop, step)\<close> on Python's unbounded integers. The source calls it with
  positive steps only; a step of 0, where Python raises, gives the empty list here.
\<close>

function range_py :: "int \<Rightarrow> int \<Rightarrow> int \<Rightarrow> int list" where
  "range_py i stop step =
     (if 0 < step \<and> i < stop then i # range_py (i + step) stop step
      else if step < 0 \<and> stop < i then i # range_py (i + step) stop step
      else [])"
  by pat_completeness auto
termination
  by (relation "measure (\<lambda>(i, stop, step). nat (if 0 < step then stop - i else i - stop))") auto

declare range_py.simps [simp del]

text \<open>\<^verbatim>\<open>for i in range(...): sizes.append(i)\<close>\<close>

definition append_each :: "int list \<Rightarrow> int list \<Rightarrow> int list" where
  "append_each sizes xs = foldl (\<lambda>acc i. acc @ [i]) sizes xs"

text \<open>Lines 24 to 30, in \<^verbatim>\<open>per_vision_data\<close>.\<close>

definition per_vision_data_sizes :: "int list" where
  "per_vision_data_sizes =
     append_each (append_each (append_each [] (range_py 8 64 8)) (range_py 64 512 32))
       (range_py 512 (8192 + 512) 512)"

text \<open>Lines 9 to 15, in \<^verbatim>\<open>plot_array\<close>.\<close>

definition plot_array_sizes :: "int list" where
  "plot_array_sizes =
     append_each (append_each (append_each [] (range_py 8 64 8)) (range_py 64 512 32))
       (range_py 512 (8192 + 512) 512)"

text \<open>\<^verbatim>\<open>str(s)\<close> for an integer: its decimal digits, with a minus sign if negative.\<close>

definition digit_char :: "nat \<Rightarrow> char" where
  "digit_char n = char_of (48 + n)"

function str_nat :: "nat \<Rightarrow> string" where
  "str_nat n = (if n < 10 then [digit_char n] else str_nat (n div 10) @ [digit_char (n mod 10)])"
  by pat_completeness auto
termination
  by (relation "measure id") auto

declare str_nat.simps [simp del]

definition str :: "int \<Rightarrow> string" where
  "str i = (if i < 0 then CHR ''-'' # str_nat (nat (- i)) else str_nat (nat i))"

text \<open>Line 45.\<close>

definition filename_of :: "string \<Rightarrow> string \<Rightarrow> int \<Rightarrow> string" where
  "filename_of folder t s = folder @ ''/'' @ t @ ''_'' @ str s @ ''.txt''"

subsection \<open>The loops of \<^verbatim>\<open>per_vision_data\<close>\<close>

text \<open>
  The file system is a parameter \<open>fs\<close>: the lines of each file that can be opened. Every
  call of \<^verbatim>\<open>open\<close> is recorded, in order, in a log of file names, which is returned with
  the result: \<open>None\<close> if a scan never ends, \<open>Some (Inl e)\<close> if \<open>e\<close> is raised,
  \<open>Some (Inr x)\<close> if \<open>x\<close> is returned.
\<close>

type_synonym 'a run = "string list \<times> (error + 'a) option"

text \<open>Lines 43 to 73: the body of \<^verbatim>\<open>for s in sizes\<close>.\<close>

definition size_body ::
  "(string \<Rightarrow> string list option) \<Rightarrow> (string \<Rightarrow> 'v option) \<Rightarrow> string \<Rightarrow> string \<Rightarrow>
   string \<Rightarrow> int \<Rightarrow> string list \<times> 'v lists3 \<Rightarrow> 'v lists3 run" where
  "size_body fs pf folder dataset t s = (\<lambda>(opened, acc).
     if t = ''none'' \<and> s > 8 then (opened, Some (Inr acc))
     else
       (let filename = filename_of folder t s
        in case fs filename of
             None \<Rightarrow> (opened @ [filename], Some (Inl (FileNotFoundError filename)))
           | Some ls \<Rightarrow> (opened @ [filename], scan_file dataset pf ls acc)))"

fun sizes_loop ::
  "(string \<Rightarrow> string list option) \<Rightarrow> (string \<Rightarrow> 'v option) \<Rightarrow> string \<Rightarrow> string \<Rightarrow>
   string \<Rightarrow> int list \<Rightarrow> string list \<times> 'v lists3 \<Rightarrow> 'v lists3 run" where
  "sizes_loop fs pf folder dataset t [] (opened, acc) = (opened, Some (Inr acc))"
| "sizes_loop fs pf folder dataset t (s # ss) (opened, acc) =
     (case size_body fs pf folder dataset t s (opened, acc) of
        (opened', Some (Inr acc')) \<Rightarrow> sizes_loop fs pf folder dataset t ss (opened', acc')
      | (opened', Some (Inl e)) \<Rightarrow> (opened', Some (Inl e))
      | (opened', None) \<Rightarrow> (opened', None))"

text \<open>
  The three dictionaries, from access pattern to list. Lines 37 to 73: the body of
  \<^verbatim>\<open>for t in types\<close> binds \<open>t\<close> to three new empty lists and the loop over the sizes
  appends to these lists; the model stores them under \<open>t\<close> when that loop is over.
\<close>

type_synonym 'v series = "string \<rightharpoonup> 'v list"

type_synonym 'v dicts = "'v series \<times> 'v series \<times> 'v series"

fun types_loop ::
  "(string \<Rightarrow> string list option) \<Rightarrow> (string \<Rightarrow> 'v option) \<Rightarrow> string \<Rightarrow> string \<Rightarrow>
   string list \<Rightarrow> int list \<Rightarrow> string list \<times> 'v dicts \<Rightarrow> 'v dicts run" where
  "types_loop fs pf folder dataset [] sizes (opened, dm) = (opened, Some (Inr dm))"
| "types_loop fs pf folder dataset (t # ts) sizes (opened, dm) =
     (case sizes_loop fs pf folder dataset t sizes (opened, ([], [], [])) of
        (opened', Some (Inr (d, m, tr))) \<Rightarrow>
          (case dm of (disparity, mser, tracking) \<Rightarrow>
             types_loop fs pf folder dataset ts sizes
               (opened', (disparity(t \<mapsto> d), mser(t \<mapsto> m), tracking(t \<mapsto> tr))))
      | (opened', Some (Inl e)) \<Rightarrow> (opened', Some (Inl e))
      | (opened', None) \<Rightarrow> (opened', None))"

text \<open>
  \<^verbatim>\<open>target[t].insert(0, src['none'][0])\<close>: the list \<^verbatim>\<open>target[t]\<close> is looked up first,
  then the argument is evaluated.
\<close>

definition insert_baseline :: "'v series \<Rightarrow> string \<Rightarrow> 'v series \<Rightarrow> error + 'v series" where
  "insert_baseline target t src =
     (case target t of
        None \<Rightarrow> Inl (KeyError t)
      | Some xs \<Rightarrow>
          (case src ''none'' of
             None \<Rightarrow> Inl (KeyError ''none'')
           | Some [] \<Rightarrow> Inl IndexError
           | Some (v # _) \<Rightarrow> Inr (target(t \<mapsto> v # xs))))"

text \<open>Lines 76 to 78: the body of \<^verbatim>\<open>for t in types[1: ]\<close>.\<close>

definition prepend_body :: "'v dicts \<Rightarrow> string \<Rightarrow> error + 'v dicts" where
  "prepend_body dm t =
     (case dm of (disparity, mser, tracking) \<Rightarrow>
        (case insert_baseline disparity t disparity of
           Inl e \<Rightarrow> Inl e
         | Inr disparity' \<Rightarrow>
             (case insert_baseline mser t disparity' of
                Inl e \<Rightarrow> Inl e
              | Inr mser' \<Rightarrow>
                  (case insert_baseline tracking t tracking of
                     Inl e \<Rightarrow> Inl e
                   | Inr tracking' \<Rightarrow> Inr (disparity', mser', tracking')))))"

fun prepend_loop :: "string list \<Rightarrow> 'v dicts \<Rightarrow> error + 'v dicts" where
  "prepend_loop [] dm = Inr dm"
| "prepend_loop (t # ts) dm =
     (case prepend_body dm t of Inl e \<Rightarrow> Inl e | Inr dm' \<Rightarrow> prepend_loop ts dm')"

text \<open>Line 35.\<close>

definition types :: "string list" where
  "types = [''none'', ''read'', ''write'', ''modify'', ''prefetch_l3'']"

text \<open>Lines 23 to 80.\<close>

definition per_vision_data ::
  "(string \<Rightarrow> string list option) \<Rightarrow> (string \<Rightarrow> 'v option) \<Rightarrow> string \<Rightarrow> string \<Rightarrow> 'v dicts run" where
  "per_vision_data fs pf folder dataset =
     (case types_loop fs pf folder dataset types per_vision_data_sizes
             ([], (Map.empty, Map.empty, Map.empty)) of
        (opened, Some (Inr dm)) \<Rightarrow> (opened, Some (prepend_loop (drop 1 types) dm))
      | (opened, Some (Inl e)) \<Rightarrow> (opened, Some (Inl e))
      | (opened, None) \<Rightarrow> (opened, None))"

text \<open>Lines 84 and 85: the two dataset markers.\<close>

definition dataset_cif :: string where
  "dataset_cif = ''--------------------------1--------------------------------''"

definition dataset_vga :: string where
  "dataset_vga = ''--------------------------2--------------------------------''"

subsection \<open>Floating-point numbers\<close>

text \<open>
  The series are lists of Python floats, that is IEEE 754 binary64 numbers: a finite number
  with its sign bit (\<open>True\<close>: negative) and its magnitude, so that there are two zeros; the
  two infinities with their sign bit; and not-a-number.
\<close>

datatype pyfloat = Finite bool rat | Infinite bool | NaN

definition is_zero :: "pyfloat \<Rightarrow> bool" where
  "is_zero x = (case x of Finite s r \<Rightarrow> r = 0 | _ \<Rightarrow> False)"

definition is_finite :: "pyfloat \<Rightarrow> bool" where
  "is_finite x = (case x of Finite s r \<Rightarrow> True | _ \<Rightarrow> False)"

definition signed :: "bool \<Rightarrow> rat \<Rightarrow> rat" where
  "signed s r = (if s then - r else r)"

text \<open>
  \<^verbatim>\<open>a > b\<close> on floats: false when an operand is not-a-number, and the two zeros are equal.
\<close>

definition float_gt :: "pyfloat \<Rightarrow> pyfloat \<Rightarrow> bool" where
  "float_gt a b =
     (case (a, b) of
        (NaN, _) \<Rightarrow> False
      | (_, NaN) \<Rightarrow> False
      | (Infinite sa, Infinite sb) \<Rightarrow> \<not> sa \<and> sb
      | (Infinite sa, Finite sb rb) \<Rightarrow> \<not> sa
      | (Finite sa ra, Infinite sb) \<Rightarrow> sb
      | (Finite sa ra, Finite sb rb) \<Rightarrow> signed sb rb < signed sa ra)"

text \<open>
  Rounding a positive rational to binary64, to nearest with ties to even: with
  \<open>2 ^ e \<le> r < 2 ^ (e + 1)\<close>, the result is a multiple of \<open>2 ^ (e - 52)\<close>, and of
  \<open>2 ^ (- 1074)\<close> for the subnormal numbers; a result of \<open>2 ^ 1024\<close> or more is an
  infinity.
\<close>

function bit_length :: "nat \<Rightarrow> nat" where
  "bit_length n = (if n = 0 then 0 else Suc (bit_length (n div 2)))"
  by pat_completeness auto
termination
  by (relation "measure id") auto

declare bit_length.simps [simp del]

definition pow2 :: "int \<Rightarrow> rat" where
  "pow2 k = (if 0 \<le> k then 2 ^ nat k else 1 / 2 ^ nat (- k))"

definition floor_log2 :: "rat \<Rightarrow> int" where
  "floor_log2 r =
     (case quotient_of r of (a, b) \<Rightarrow>
        (let d = int (bit_length (nat a)) - int (bit_length (nat b))
         in if pow2 d \<le> r then d else d - 1))"

definition round_half_even :: "rat \<Rightarrow> int" where
  "round_half_even x =
     (let f = \<lfloor>x\<rfloor>; d = x - of_int f
      in if d < 1 / 2 then f else if 1 / 2 < d then f + 1 else if even f then f else f + 1)"

definition round_double :: "bool \<Rightarrow> rat \<Rightarrow> pyfloat" where
  "round_double s r =
     (if r = 0 then Finite s 0
      else
        (let e = floor_log2 r;
             q = max (e - 52) (- 1074);
             v = of_int (round_half_even (r / pow2 q)) * pow2 q
         in if pow2 1024 \<le> v then Infinite s else Finite s v))"

text \<open>The quotient of IEEE 754: the exact quotient, rounded.\<close>

definition float_quot :: "pyfloat \<Rightarrow> pyfloat \<Rightarrow> pyfloat" where
  "float_quot a b =
     (case (a, b) of
        (NaN, _) \<Rightarrow> NaN
      | (_, NaN) \<Rightarrow> NaN
      | (Infinite sa, Infinite sb) \<Rightarrow> NaN
      | (Infinite sa, Finite sb rb) \<Rightarrow> Infinite (sa \<noteq> sb)
      | (Finite sa ra, Infinite sb) \<Rightarrow> Finite (sa \<noteq> sb) 0
      | (Finite sa ra, Finite sb rb) \<Rightarrow>
          if rb = 0 then (if ra = 0 then NaN else Infinite (sa \<noteq> sb))
          else round_double (sa \<noteq> sb) (ra / rb))"

text \<open>
  \<^verbatim>\<open>a / b\<close> on floats: Python raises \<^verbatim>\<open>ZeroDivisionError\<close> when \<open>b\<close> is a zero, whatever
  \<open>a\<close> is, and returns the quotient of IEEE 754 otherwise.
\<close>

definition float_div :: "pyfloat \<Rightarrow> pyfloat \<Rightarrow> error + pyfloat" where
  "float_div a b = (if is_zero b then Inl ZeroDivisionError else Inr (float_quot a b))"

text \<open>
  A number in a list is an \<^verbatim>\<open>int\<close> or a \<^verbatim>\<open>float\<close>. \<^verbatim>\<open>a == b\<close> compares the values: an
  \<^verbatim>\<open>int\<close> equals the finite float of the same value, and not-a-number equals nothing.
\<close>

datatype pynum = PyInt int | PyFloat pyfloat

definition num_eq :: "pynum \<Rightarrow> pynum \<Rightarrow> bool" where
  "num_eq a b =
     (case (a, b) of
        (PyInt i, PyInt j) \<Rightarrow> i = j
      | (PyInt i, PyFloat (Finite s r)) \<Rightarrow> of_int i = signed s r
      | (PyFloat (Finite s r), PyInt j) \<Rightarrow> signed s r = of_int j
      | (PyFloat (Finite s r), PyFloat (Finite s' r')) \<Rightarrow> signed s r = signed s' r'
      | (PyFloat (Infinite s), PyFloat (Infinite s')) \<Rightarrow> s = s'
      | _ \<Rightarrow> False)"

subsection \<open>The normalizer\<close>

text \<open>
  Lines 121 to 127, on a list of floats, as the series of \<^verbatim>\<open>per_vision_data\<close> are.
  \<^verbatim>\<open>arr[0]\<close> and \<^verbatim>\<open>arr[1]\<close> raise \<^verbatim>\<open>IndexError\<close> on a list that is too short, the division
  raises \<^verbatim>\<open>ZeroDivisionError\<close> when \<^verbatim>\<open>arr[0]\<close> is a zero, and line 126 stores the \<^verbatim>\<open>int\<close> 1.
\<close>

fun div_loop :: "nat list \<Rightarrow> pyfloat list \<Rightarrow> error + pyfloat list" where
  "div_loop [] arr = Inr arr"
| "div_loop (i # is) arr =
     (case float_div (arr ! i) (arr ! 0) of
        Inl e \<Rightarrow> Inl e
      | Inr q \<Rightarrow> div_loop is (arr[i := q]))"

definition percent_change :: "pyfloat list \<Rightarrow> error + pynum list" where
  "percent_change arr =
     (if length arr < 2 then Inl IndexError
      else
        (let arr1 = (if float_gt (arr ! 0) (arr ! 1) then arr[0 := arr ! 1] else arr)
         in case div_loop [1..<length arr1] arr1 of
              Inl e \<Rightarrow> Inl e
            | Inr arr2 \<Rightarrow> Inr ((map PyFloat arr2)[0 := PyInt 1])))"

subsection \<open>Decimal literals\<close>

text \<open>
  A conversion for running the model on concrete files: \<^verbatim>\<open>float\<close> restricted to plain
  decimal literals (an optional sign, digits, an optional point and digits), with the exact
  rational value; every other string is rejected.
\<close>

definition is_digit :: "char \<Rightarrow> bool" where
  "is_digit c = (48 \<le> (of_char c :: nat) \<and> (of_char c :: nat) \<le> 57)"

definition digits_val :: "string \<Rightarrow> nat" where
  "digits_val s = foldl (\<lambda>n c. 10 * n + (of_char c - 48)) 0 s"

definition float_dec :: "string \<Rightarrow> rat option" where
  "float_dec s =
     (let (neg, body) =
            (case s of
               [] \<Rightarrow> (False, s)
             | c # r \<Rightarrow>
                 if c = CHR ''-'' then (True, r)
                 else if c = CHR ''+'' then (False, r) else (False, s));
          ip = takeWhile (\<lambda>c. c \<noteq> CHR ''.'') body;
          fp = drop 1 (dropWhile (\<lambda>c. c \<noteq> CHR ''.'') body)
      in if (ip = [] \<and> fp = []) \<or> \<not> list_all is_digit (ip @ fp) then None
         else
           (let v = of_nat (digits_val ip) + of_nat (digits_val fp) / 10 ^ length fp
            in Some (if neg then - v else v)))"

subsection \<open>Notions used in the properties\<close>

text \<open>
  The string that the \<open>i\<close>-th call of \<^verbatim>\<open>file.readline().strip()\<close> returns on a file
  (counting from 0): the stripped line, or the empty string after the end of the file.
\<close>

definition read_at :: "string list \<Rightarrow> nat \<Rightarrow> string" where
  "read_at ls i = strip (fst (readline (drop i ls)))"

text \<open>The state after the two reads of an iteration.\<close>

definition after_reads :: "'v scan_state \<Rightarrow> 'v scan_state" where
  "after_reads st =
     st\<lparr>file_lines := drop 2 (file_lines st), line1 := read_at (file_lines st) 0,
        line2 := read_at (file_lines st) 1\<rparr>"

subsection \<open>Sample files\<close>

text \<open>A text file with the given lines, each ended by a newline character.\<close>

definition text_file :: "string list \<Rightarrow> string list" where
  "text_file ls = map (\<lambda>l. l @ [CHR 0x0A]) ls"

text \<open>
  The file of the sample scenario: the marker, at once the three pairs, a blank line.
\<close>

definition scenario_file :: "string \<Rightarrow> string list" where
  "scenario_file dataset =
     text_file [dataset, ''disparity'', ''1.5'', ''mser'', ''2.0'', ''tracking'', ''0.5'', '''']"

text \<open>The same with one more line \<open>x\<close> between the marker and the pairs.\<close>

definition block_file :: "string \<Rightarrow> string \<Rightarrow> string list" where
  "block_file dataset x =
     (dataset @ [CHR 0x0A]) # x #
       text_file [''disparity'', ''1.5'', ''mser'', ''2.0'', ''tracking'', ''0.5'', '''']"

text \<open>Files with the marker as the second line of a pair, before and after the scan collects.\<close>

definition second_marker_file :: "string list" where
  "second_marker_file = text_file [''x'', dataset_cif, ''y'', ''disparity'', ''1.5'', '''']"

definition two_marker_file :: "string list" where
  "two_marker_file =
     text_file [dataset_cif, ''h'', ''x'', dataset_cif, ''y'', ''disparity'', ''1.5'', '''']"

text \<open>A line that ends a block: empty after stripping, or starting with a dash.\<close>

definition is_terminator :: "string \<Rightarrow> bool" where
  "is_terminator l = (case l of [] \<Rightarrow> True | c # _ \<Rightarrow> c = CHR ''-'')"

text \<open>Two pairs of a block; the value of the second pair starts with a dash.\<close>

definition dash_file :: "string list" where
  "dash_file = text_file [''mser'', ''2.0'', ''disparity'', ''-1.5'', ''tracking'', ''0.5'']"

subsection \<open>Notions for the whole run\<close>

text \<open>The state \<open>st\<close> with the lists \<open>acc\<close> in front of its three lists.\<close>

definition prefixed :: "'v lists3 \<Rightarrow> 'v scan_state \<Rightarrow> 'v scan_state" where
  "prefixed acc st =
     (case acc of (ds, ms, ts) \<Rightarrow>
        st\<lparr>disparity_t := ds @ disparity_t st, mser_t := ms @ mser_t st,
           tracking_t := ts @ tracking_t st\<rparr>)"

text \<open>The lists \<open>acc\<close> with the lists \<open>new\<close> appended.\<close>

definition extended :: "'v lists3 \<Rightarrow> 'v lists3 \<Rightarrow> 'v lists3" where
  "extended acc new = (case acc of (ds, ms, ts) \<Rightarrow> case new of (x, y, z) \<Rightarrow> (ds @ x, ms @ y, ts @ z))"

text \<open>Line 43: the sizes that the loop skips for an access pattern.\<close>

definition skipped :: "string \<Rightarrow> int \<Rightarrow> bool" where
  "skipped t s = (t = ''none'' \<and> s > 8)"

text \<open>
  What opening and scanning the file of \<open>(t, s)\<close> gives, starting from empty lists: an error,
  the values found, or \<open>None\<close> if the scan never ends.
\<close>

definition file_result ::
  "(string \<Rightarrow> string list option) \<Rightarrow> (string \<Rightarrow> 'v option) \<Rightarrow> string \<Rightarrow> string \<Rightarrow>
   string \<Rightarrow> int \<Rightarrow> (error + 'v lists3) option" where
  "file_result fs pf folder dataset t s =
     (case fs (filename_of folder t s) of
        None \<Rightarrow> Some (Inl (FileNotFoundError (filename_of folder t s)))
      | Some ls \<Rightarrow> scan_file dataset pf ls ([], [], []))"

text \<open>The file of \<open>(t, s)\<close> contributes exactly one value per metric.\<close>

definition contributes_one ::
  "(string \<Rightarrow> string list option) \<Rightarrow> (string \<Rightarrow> 'v option) \<Rightarrow> string \<Rightarrow> string \<Rightarrow>
   string \<Rightarrow> int \<Rightarrow> bool" where
  "contributes_one fs pf folder dataset t s =
     (case file_result fs pf folder dataset t s of
        Some (Inr (d, m, tr)) \<Rightarrow> length d = 1 \<and> length m = 1 \<and> length tr = 1
      | _ \<Rightarrow> False)"

text \<open>Every file that \<^verbatim>\<open>per_vision_data\<close> opens contributes exactly one value per metric.\<close>

definition all_contribute_one ::
  "(string \<Rightarrow> string list option) \<Rightarrow> (string \<Rightarrow> 'v option) \<Rightarrow> string \<Rightarrow> string \<Rightarrow> bool" where
  "all_contribute_one fs pf folder dataset =
     (\<forall>t\<in>set types. \<forall>s\<in>set per_vision_data_sizes.
        skipped t s \<or> contributes_one fs pf folder dataset t s)"

text \<open>
  A file system in which every file holds the same block: the marker, a header line, the
  three pairs with the values 1.5, 2.0 and 0.5, and a blank line.
\<close>

definition sample_fs :: "string \<Rightarrow> string list option" where
  "sample_fs name = Some (block_file dataset_cif ''header\<newline>'')"

text \<open>The file of \<open>(t, s)\<close> is opened and scanned without an error.\<close>

definition reads_ok ::
  "(string \<Rightarrow> string list option) \<Rightarrow> (string \<Rightarrow> 'v option) \<Rightarrow> string \<Rightarrow> string \<Rightarrow>
   string \<Rightarrow> int \<Rightarrow> bool" where
  "reads_ok fs pf folder dataset t s =
     (case file_result fs pf folder dataset t s of Some (Inr new) \<Rightarrow> True | _ \<Rightarrow> False)"

text \<open>A file system with the baseline file only, and one in which every file has a value
  that is not a number.\<close>

definition baseline_only_fs :: "string \<Rightarrow> string list option" where
  "baseline_only_fs name =
     (if name = ''/data/none_8.txt'' then Some (block_file dataset_cif ''header\<newline>'') else None)"

definition garbled_fs :: "string \<Rightarrow> string list option" where
  "garbled_fs name = Some (text_file [dataset_cif, ''header'', ''disparity'', ''abc'', ''''])"

subsection \<open>Blocks of pairs\<close>

text \<open>The lines of a file that consists of the given pairs of lines.\<close>

definition lines_of_pairs :: "(string \<times> string) list \<Rightarrow> string list" where
  "lines_of_pairs ps = concat (map (\<lambda>(a, b). [a, b]) ps)"

text \<open>The pairs as the loop sees them: both lines stripped.\<close>

definition stripped :: "(string \<times> string) list \<Rightarrow> (string \<times> string) list" where
  "stripped ps = map (\<lambda>(a, b). (strip a, strip b)) ps"

text \<open>The three metric names of lines 56 to 61.\<close>

definition is_metric :: "string \<Rightarrow> bool" where
  "is_metric l = (l = ''disparity'' \<or> l = ''mser'' \<or> l = ''tracking'')"

text \<open>
  The values that a block of (stripped) pairs holds for one metric name, in order, and for
  the three metrics.
\<close>

definition values_for :: "(string \<Rightarrow> 'v option) \<Rightarrow> string \<Rightarrow> (string \<times> string) list \<Rightarrow> 'v list" where
  "values_for pf name ps = List.map_filter (\<lambda>(a, b). if a = name then pf b else None) ps"

definition block_values :: "(string \<Rightarrow> 'v option) \<Rightarrow> (string \<times> string) list \<Rightarrow> 'v lists3" where
  "block_values pf ps =
     (values_for pf ''disparity'' ps, values_for pf ''mser'' ps, values_for pf ''tracking'' ps)"

text \<open>
  A (stripped) pair inside a block: no line is empty, starts with a dash, and the second is
  not the marker; and if the first line is a metric name, the second is accepted by the
  conversion.
\<close>

definition good_pair :: "string \<Rightarrow> (string \<Rightarrow> 'v option) \<Rightarrow> string \<times> string \<Rightarrow> bool" where
  "good_pair dataset pf p =
     (case p of (a, b) \<Rightarrow>
        \<not> is_terminator a \<and> \<not> is_terminator b \<and> b \<noteq> dataset \<and> (\<not> is_metric a \<or> pf b \<noteq> None))"

section \<open>Properties\<close>

subsection \<open>The interference sizes\<close>

lemma sizes_value:
  "per_vision_data_sizes =
     [8, 16, 24, 32, 40, 48, 56, 64, 96, 128, 160, 192, 224, 256, 288, 320, 352,
      384, 416, 448, 480, 512, 1024, 1536, 2048, 2560, 3072, 3584, 4096, 4608,
      5120, 5632, 6144, 6656, 7168, 7680, 8192]"
  by (simp add: per_vision_data_sizes_def append_each_def range_py.simps)

text \<open>
  C10, as the claim states it, fails: the sequence built in \<^verbatim>\<open>per_vision_data\<close> has 37
  elements (7 with step 8, 14 with step 32, 16 with step 512), not 36.
\<close>

theorem sizes_not_36: "length per_vision_data_sizes \<noteq> 36"
  by (simp add: sizes_value)

text \<open>
  C10, amended: the sequence built in \<^verbatim>\<open>per_vision_data\<close> is 8, 16, ..., 56 (step 8), then
  64, 96, ..., 480 (step 32), then 512, 1024, ..., 8192 (step 512); it is strictly increasing
  and has 37 elements, and \<^verbatim>\<open>plot_array\<close> builds the same sequence.
\<close>

theorem sizes_sequence:
  "per_vision_data_sizes =
     [8, 16, 24, 32, 40, 48, 56] @
     [64, 96, 128, 160, 192, 224, 256, 288, 320, 352, 384, 416, 448, 480] @
     [512, 1024, 1536, 2048, 2560, 3072, 3584, 4096, 4608, 5120, 5632, 6144, 6656, 7168,
      7680, 8192]
   \<and> length per_vision_data_sizes = 37
   \<and> sorted_wrt (<) per_vision_data_sizes
   \<and> plot_array_sizes = per_vision_data_sizes"
proof -
  have same: "plot_array_sizes = per_vision_data_sizes"
    by (simp add: plot_array_sizes_def per_vision_data_sizes_def)
  show ?thesis
    by (simp add: same sizes_value)
qed

subsection \<open>Termination of the scan\<close>

lemma strip_Nil [simp]: "strip [] = []"
  by (simp add: strip_def)

lemma readline_snd: "snd (readline f) = drop 1 f"
  by (cases f) (simp_all add: readline_def)

lemma read_at_drop: "read_at (drop n ls) i = read_at ls (n + i)"
  by (simp add: read_at_def add.commute)

lemma read_at_beyond: "length ls \<le> i \<Longrightarrow> read_at ls i = []"
  by (simp add: read_at_def readline_def)

lemma read_at_within: "i < length ls \<Longrightarrow> read_at ls i = strip (ls ! i)"
  by (simp add: read_at_def readline_def Cons_nth_drop_Suc [symmetric])

lemma scan_body_reads:
  "scan_body dataset pf st =
     (case (if collect_data st then collect_metric pf (after_reads st) else Inr (after_reads st)) of
        Inl e \<Rightarrow> Inl e
      | Inr st2 \<Rightarrow>
          if collect_data st2 \<and> (line1 st2 = [] \<or> line2 st2 = []) then Inr (Break st2)
          else
            (case (if collect_data st2 then dash_test (line1 st2) (line2 st2) else Inr False) of
               Inl e \<Rightarrow> Inl e
             | Inr True \<Rightarrow> Inr (Break st2)
             | Inr False \<Rightarrow> Inr (Next (marker_first dataset (marker_second dataset st2)))))"
proof -
  obtain r1 f1 where r1: "readline (file_lines st) = (r1, f1)" by (cases "readline (file_lines st)")
  obtain r2 f2 where r2: "readline f1 = (r2, f2)" by (cases "readline f1")
  have f1: "f1 = drop 1 (file_lines st)" using readline_snd [of "file_lines st"] r1 by simp
  have f2: "f2 = drop 2 (file_lines st)" using readline_snd [of f1] r2 f1 by (simp add: numeral_2_eq_2)
  have l1: "strip r1 = read_at (file_lines st) 0" using r1 by (simp add: read_at_def)
  have l2: "strip r2 = read_at (file_lines st) 1" using r2 f1 by (simp add: read_at_def)
  have "st\<lparr>file_lines := f2, line1 := strip r1, line2 := strip r2\<rparr> = after_reads st"
    by (simp add: after_reads_def f2 l1 l2)
  then show ?thesis
    by (simp add: scan_body_def r1 r2 Let_def)
qed

lemma after_reads_simps [simp]:
  "file_lines (after_reads st) = drop 2 (file_lines st)"
  "line1 (after_reads st) = read_at (file_lines st) 0"
  "line2 (after_reads st) = read_at (file_lines st) 1"
  "collect_data (after_reads st) = collect_data st"
  "disparity_t (after_reads st) = disparity_t st"
  "mser_t (after_reads st) = mser_t st"
  "tracking_t (after_reads st) = tracking_t st"
  by (simp_all add: after_reads_def)

lemma collect_metric_keeps:
  "collect_metric pf st = Inr st2 \<Longrightarrow>
   file_lines st2 = file_lines st \<and> line1 st2 = line1 st \<and> line2 st2 = line2 st
   \<and> collect_data st2 = collect_data st"
  by (auto simp: collect_metric_def split: if_splits option.splits)

lemma markers_collecting:
  "collect_data st \<Longrightarrow> collect_data (marker_first dataset (marker_second dataset st))"
  by (simp add: marker_first_def marker_second_def split: prod.splits)

lemma markers_length:
  "length (file_lines (marker_first dataset (marker_second dataset st))) \<le> length (file_lines st)"
  by (cases "file_lines st") (simp_all add: marker_first_def marker_second_def readline_def)

lemma scan_body_Next_collecting:
  assumes c: "collect_data st" and n: "scan_body dataset pf st = Inr (Next st')"
  shows "collect_data st' \<and> length (file_lines st') < length (file_lines st)"
proof -
  from n c obtain st2 where cm: "collect_metric pf (after_reads st) = Inr st2"
    by (cases "collect_metric pf (after_reads st)") (simp_all add: scan_body_reads)
  from collect_metric_keeps [OF cm]
  have k: "file_lines st2 = drop 2 (file_lines st)" "line2 st2 = read_at (file_lines st) 1"
    "collect_data st2" using c by simp_all
  from n c cm have ne: "line2 st2 \<noteq> []"
    and st': "st' = marker_first dataset (marker_second dataset st2)"
    by (auto simp: scan_body_reads k split: if_splits sum.splits bool.splits)
  from ne k(2) have "1 < length (file_lines st)"
    using read_at_beyond [of "file_lines st" 1] by (cases "1 < length (file_lines st)") auto
  then have "length (file_lines st2) < length (file_lines st)"
    by (simp add: k)
  with markers_length [of dataset st2] markers_collecting [OF k(3), of dataset] st'
  show ?thesis by simp
qed

lemma collecting_terminates:
  "collect_data st \<Longrightarrow> \<exists>r. scan_loop dataset pf st = Some r"
proof (induction "length (file_lines st)" arbitrary: st rule: less_induct)
  case less
  show ?case
  proof (cases "scan_body dataset pf st")
    case (Inl e)
    then show ?thesis by (subst scan_loop.simps) simp
  next
    case (Inr s)
    show ?thesis
    proof (cases s)
      case (Break st')
      with Inr show ?thesis by (subst scan_loop.simps) simp
    next
      case (Next st')
      with Inr have n: "scan_body dataset pf st = Inr (Next st')" by simp
      from scan_body_Next_collecting [OF less.prems n] less.hyps
      have "\<exists>r. scan_loop dataset pf st' = Some r" by blast
      with n show ?thesis by (subst scan_loop.simps) simp
    qed
  qed
qed

lemma scan_body_searching:
  "\<not> collect_data st \<Longrightarrow>
   scan_body dataset pf st = Inr (Next (marker_first dataset (marker_second dataset (after_reads st))))"
  by (simp add: scan_body_reads)

lemma markers_found:
  "read_at (file_lines st) 0 = dataset \<or> read_at (file_lines st) 1 = dataset \<Longrightarrow>
   collect_data (marker_first dataset (marker_second dataset (after_reads st)))"
  by (auto simp: marker_first_def marker_second_def split: prod.splits)

lemma markers_not_found:
  "read_at (file_lines st) 0 \<noteq> dataset \<Longrightarrow> read_at (file_lines st) 1 \<noteq> dataset \<Longrightarrow>
   marker_first dataset (marker_second dataset (after_reads st)) = after_reads st"
  by (simp add: marker_first_def marker_second_def)

lemma searching_terminates:
  "\<not> collect_data st \<Longrightarrow> read_at (file_lines st) i = dataset \<Longrightarrow>
   \<exists>r. scan_loop dataset pf st = Some r"
proof (induction i arbitrary: st rule: less_induct)
  case (less i)
  let ?st' = "marker_first dataset (marker_second dataset (after_reads st))"
  have unfold: "scan_loop dataset pf st = scan_loop dataset pf ?st'"
    by (subst scan_loop.simps) (simp add: scan_body_searching [OF less.prems(1)])
  show ?case
  proof (cases "read_at (file_lines st) 0 = dataset \<or> read_at (file_lines st) 1 = dataset")
    case True
    from collecting_terminates [OF markers_found [OF True]] unfold show ?thesis by simp
  next
    case False
    then have st': "?st' = after_reads st" by (simp add: markers_not_found)
    from False less.prems(2) have i2: "2 \<le> i"
      by (cases "i = 0"; cases "i = 1") auto
    have "2 + (i - 2) = i" using i2 by simp
    then have "read_at (file_lines (after_reads st)) (i - 2) = dataset"
      using less.prems(2) by (simp only: after_reads_simps read_at_drop)
    moreover have "\<not> collect_data (after_reads st)" using less.prems(1) by simp
    moreover have "i - 2 < i" using i2 by simp
    ultimately have "\<exists>r. scan_loop dataset pf (after_reads st) = Some r"
      using less.IH by blast
    with unfold st' show ?thesis by simp
  qed
qed

lemma searching_forever_aux:
  assumes some: "scan_loop dataset pf st = Some r"
  shows "\<not> collect_data st \<longrightarrow> (\<forall>i. read_at (file_lines st) i \<noteq> dataset) \<longrightarrow> False"
proof (rule scan_loop.raw_induct
    [where P = "\<lambda>d p s y. \<not> collect_data s \<longrightarrow> (\<forall>i. read_at (file_lines s) i \<noteq> d) \<longrightarrow> False",
     OF _ some])
  fix f :: "string \<Rightarrow> (string \<Rightarrow> 'a option) \<Rightarrow> 'a scan_state \<Rightarrow> (error + 'a scan_state) option"
  fix d p s y
  assume ih: "\<And>d p s y. f d p s = Some y \<Longrightarrow>
      \<not> collect_data s \<longrightarrow> (\<forall>i. read_at (file_lines s) i \<noteq> d) \<longrightarrow> False"
  assume step: "(case scan_body d p s of
        Inl e \<Rightarrow> Some (Inl e)
      | Inr (Break st') \<Rightarrow> Some (Inr st')
      | Inr (Next st') \<Rightarrow> f d p st') = Some y"
  show "\<not> collect_data s \<longrightarrow> (\<forall>i. read_at (file_lines s) i \<noteq> d) \<longrightarrow> False"
  proof (intro impI)
    assume nc: "\<not> collect_data s" and no: "\<forall>i. read_at (file_lines s) i \<noteq> d"
    from no have "read_at (file_lines s) 0 \<noteq> d" "read_at (file_lines s) 1 \<noteq> d"
      by blast+
    then have st': "marker_first d (marker_second d (after_reads s)) = after_reads s"
      by (rule markers_not_found)
    from step have a: "f d p (after_reads s) = Some y"
      by (simp add: scan_body_searching [OF nc] st')
    have b: "\<forall>i. read_at (file_lines (after_reads s)) i \<noteq> d"
      using no by (simp add: read_at_drop)
    have c: "\<not> collect_data (after_reads s)"
      using nc by simp
    from ih [OF a] b c show False by blast
  qed
qed

lemma searching_forever:
  "\<not> collect_data st \<Longrightarrow> \<forall>i. read_at (file_lines st) i \<noteq> dataset \<Longrightarrow>
   scan_loop dataset pf st = None"
  using searching_forever_aux [of dataset pf st] by (cases "scan_loop dataset pf st") auto

lemma init_state_simps [simp]:
  "file_lines (init_state ls acc) = ls"
  "collect_data (init_state ls acc) = False"
  "lists_of (init_state ls acc) = acc"
  by (simp_all add: init_state_def lists_of_def split: prod.splits)

lemma scan_file_Some_iff:
  "(\<exists>r. scan_file dataset pf ls acc = Some r) \<longleftrightarrow>
   (\<exists>r. scan_loop dataset pf (init_state ls acc) = Some r)"
  by (auto simp: scan_file_def result_lists_def split: option.splits sum.splits)

lemma read_at_pairs:
  "(\<exists>k. read_at ls (2 * k) = dataset \<or> read_at ls (2 * k + 1) = dataset) \<longleftrightarrow>
   (\<exists>i. read_at ls i = dataset)"
proof
  assume "\<exists>i. read_at ls i = dataset"
  then obtain i where i: "read_at ls i = dataset" ..
  have "i = 2 * (i div 2) \<or> i = 2 * (i div 2) + 1" by presburger
  with i show "\<exists>k. read_at ls (2 * k) = dataset \<or> read_at ls (2 * k + 1) = dataset"
    by metis
qed blast

lemma read_at_some_iff:
  "(\<exists>i. read_at ls i = dataset) \<longleftrightarrow> dataset \<in> set (map strip ls) \<or> dataset = []"
proof
  assume "\<exists>i. read_at ls i = dataset"
  then obtain i where i: "read_at ls i = dataset" ..
  show "dataset \<in> set (map strip ls) \<or> dataset = []"
  proof (cases "i < length ls")
    case True
    with i show ?thesis by (auto simp: read_at_within)
  next
    case False
    with i show ?thesis by (simp add: read_at_beyond)
  qed
next
  assume "dataset \<in> set (map strip ls) \<or> dataset = []"
  then show "\<exists>i. read_at ls i = dataset"
  proof
    assume "dataset \<in> set (map strip ls)"
    then obtain i where "i < length ls" "strip (ls ! i) = dataset"
      by (auto simp: in_set_conv_nth)
    then have "read_at ls i = dataset" by (simp add: read_at_within)
    then show ?thesis ..
  next
    assume "dataset = []"
    then have "read_at ls (length ls) = dataset" by (simp add: read_at_beyond)
    then show ?thesis ..
  qed
qed

text \<open>
  C4: the scan of a file ends (with a \<^verbatim>\<open>break\<close> or an exception) if and only if the
  dataset marker is one of the two lines of some pair that the loop reads, where the reads
  after the end of the file return the empty string; and when no read ever returns the
  marker, the loop never ends.
\<close>

theorem scan_terminates_iff:
  "((\<exists>r. scan_file dataset pf ls acc = Some r) \<longleftrightarrow>
      (\<exists>k. read_at ls (2 * k) = dataset \<or> read_at ls (2 * k + 1) = dataset))
   \<and> ((\<forall>i. read_at ls i \<noteq> dataset) \<longrightarrow> scan_file dataset pf ls acc = None)"
proof (cases "\<exists>i. read_at ls i = dataset")
  case True
  then obtain i where "read_at (file_lines (init_state ls acc)) i = dataset" by auto
  then have "\<exists>r. scan_loop dataset pf (init_state ls acc) = Some r"
    by (rule searching_terminates [rotated]) simp
  with True show ?thesis
    by (simp only: scan_file_Some_iff read_at_pairs) blast
next
  case False
  then have "scan_loop dataset pf (init_state ls acc) = None"
    by (intro searching_forever) simp_all
  then have none: "scan_file dataset pf ls acc = None"
    by (simp add: scan_file_def result_lists_def)
  with False show ?thesis
    by (simp only: read_at_pairs) simp
qed

theorem scan_terminates_iff_witness:
  "(\<forall>i. read_at [''disparity'', ''1.5''] i \<noteq> dataset_cif)
   \<and> scan_file dataset_cif float_dec [''disparity'', ''1.5''] ([], [], []) = None
   \<and> (\<exists>r. scan_file dataset_cif float_dec [''disparity'', dataset_cif] ([], [], []) = Some r)"
proof -
  have a: "\<forall>i. read_at [''disparity'', ''1.5''] i \<noteq> dataset_cif"
    using read_at_some_iff [of "[''disparity'', ''1.5'']" dataset_cif]
    by (simp add: dataset_cif_def strip_def isspace_def)
  have b: "read_at [''disparity'', dataset_cif] (2 * 0 + 1) = dataset_cif"
    by (simp add: read_at_def readline_def dataset_cif_def strip_def isspace_def)
  from a b scan_terminates_iff [of dataset_cif float_dec "[''disparity'', ''1.5'']" "([], [], [])"]
    scan_terminates_iff [of dataset_cif float_dec "[''disparity'', dataset_cif]" "([], [], [])"]
  show ?thesis by blast
qed

subsection \<open>The sample scenario\<close>

text \<open>
  C2, as the claim states it, fails: when the first line of the file is the marker and the
  pairs follow at once, the first pair read is (marker, \<^verbatim>\<open>disparity\<close>), and every later
  pair has a value as its first line and a name as its second; nothing is extracted.
\<close>

theorem scenario_yields_nothing:
  "scan_file dataset_cif float_dec (scenario_file dataset_cif) ([], [], []) = Some (Inr ([], [], []))
   \<and> scan_file dataset_cif float_dec (scenario_file dataset_cif) ([], [], [])
       \<noteq> Some (Inr ([3 / 2], [2], [1 / 2]))"
  by code_simp

lemma strip_lit:
  "strip ''disparity\<newline>'' = ''disparity''"
  "strip ''mser\<newline>'' = ''mser''"
  "strip ''tracking\<newline>'' = ''tracking''"
  "strip ''1.5\<newline>'' = ''1.5''"
  "strip ''2.0\<newline>'' = ''2.0''"
  "strip ''0.5\<newline>'' = ''0.5''"
  "strip ''\<newline>'' = []"
  by code_simp+

lemma strip_dataset:
  "strip (dataset_cif @ ''\<newline>'') = dataset_cif"
  "strip (dataset_vga @ ''\<newline>'') = dataset_vga"
  by code_simp+

text \<open>
  C2, amended: for a file whose first line is one of the two dataset markers, followed by
  one more line that is not the marker (it is skipped), then by the pairs
  (\<^verbatim>\<open>disparity\<close>, 1.5), (\<^verbatim>\<open>mser\<close>, 2.0), (\<^verbatim>\<open>tracking\<close>, 0.5) and a blank line, the scan
  appends exactly the values of 1.5, 2.0 and 0.5 to the three lists, one per metric.
\<close>

theorem block_yields_values:
  assumes d: "dataset = dataset_cif \<or> dataset = dataset_vga"
    and x: "strip x \<noteq> dataset"
    and pf: "pf ''1.5'' = Some a" "pf ''2.0'' = Some b" "pf ''0.5'' = Some c"
  shows "scan_file dataset pf (block_file dataset x) (ds, ms, ts) =
           Some (Inr (ds @ [a], ms @ [b], ts @ [c]))"
proof -
  note defs = scan_body_reads after_reads_def read_at_def readline_def marker_first_def
    marker_second_def collect_metric_def dash_test_def char0_def
  have ne: "dataset \<noteq> ''1.5''" "dataset \<noteq> ''2.0''" "dataset \<noteq> ''0.5''" "dataset \<noteq> []"
    "dataset \<noteq> ''disparity''" "dataset \<noteq> ''mser''" "dataset \<noteq> ''tracking''"
    using d by (auto simp: dataset_cif_def dataset_vga_def)
  have st: "strip (dataset @ [CHR 0x0A]) = dataset"
    using d strip_dataset by auto
  show ?thesis
    apply (simp add: scan_file_def block_file_def text_file_def init_state_def)
    apply (subst scan_loop.simps)
    apply (simp add: defs x ne ne [symmetric] st strip_lit)
    apply (subst scan_loop.simps)
    apply (simp add: defs x ne ne [symmetric] st strip_lit pf)
    apply (subst scan_loop.simps)
    apply (simp add: defs x ne ne [symmetric] st strip_lit pf)
    apply (subst scan_loop.simps)
    apply (simp add: defs x ne ne [symmetric] st strip_lit pf)
    apply (subst scan_loop.simps)
    apply (simp add: defs x ne ne [symmetric] st strip_lit pf lists_of_def result_lists_def)
    done
qed

theorem block_yields_values_witness:
  "(dataset_cif = dataset_cif \<or> dataset_cif = dataset_vga)
   \<and> strip ''header\<newline>'' \<noteq> dataset_cif
   \<and> float_dec ''1.5'' = Some (3 / 2) \<and> float_dec ''2.0'' = Some 2 \<and> float_dec ''0.5'' = Some (1 / 2)
   \<and> scan_file dataset_cif float_dec (block_file dataset_cif ''header\<newline>'') ([], [], [])
       = Some (Inr ([3 / 2], [2], [1 / 2]))"
proof -
  have x: "strip ''header\<newline>'' \<noteq> dataset_cif" by code_simp
  have pf: "float_dec ''1.5'' = Some (3 / 2)" "float_dec ''2.0'' = Some 2"
    "float_dec ''0.5'' = Some (1 / 2)"
    by code_simp+
  from block_yields_values [of dataset_cif "''header\<newline>''" float_dec, OF _ x pf, of "[]" "[]" "[]"]
  show ?thesis using x pf by simp
qed

subsection \<open>The marker as the second line of a pair\<close>

text \<open>
  C3, as the claim states it, fails. The line read after the marker becomes the second line
  of the pair, not the first: the marker becomes the first. And when the scan already
  collects, a marker that starts with \<^verbatim>\<open>-\<close> ends the scan: no further line is read and the
  block after that marker is not extracted.
\<close>

theorem marker_second_line_counterexample:
  "scan_body dataset_cif float_dec (init_state second_marker_file ([], [], [])) =
     Inr (Next \<lparr>file_lines = text_file [''disparity'', ''1.5'', ''''], line1 = dataset_cif,
                 line2 = ''y'', collect_data = True,
                 disparity_t = [], mser_t = [], tracking_t = []\<rparr>)
   \<and> dataset_cif \<noteq> ''y''
   \<and> scan_file dataset_cif float_dec two_marker_file ([], [], []) = Some (Inr ([], [], []))"
  by code_simp

lemma marker_second_line_step:
  assumes nc: "\<not> collect_data st" and m: "read_at (file_lines st) 1 = dataset"
  shows "scan_body dataset pf st =
           Inr (Next (st\<lparr>file_lines := drop 3 (file_lines st), line1 := dataset,
                          line2 := read_at (file_lines st) 2, collect_data := True\<rparr>))
         \<and> scan_loop dataset pf st =
           scan_loop dataset pf
             (st\<lparr>file_lines := drop 3 (file_lines st), line1 := dataset,
                  line2 := read_at (file_lines st) 2, collect_data := True\<rparr>)"
proof -
  obtain r3 where rl: "readline (drop 2 (file_lines st)) = (r3, drop 3 (file_lines st))"
    using readline_snd [of "drop 2 (file_lines st)"]
    by (cases "readline (drop 2 (file_lines st))") (simp add: numeral_3_eq_3)
  then have r3: "read_at (file_lines st) 2 = strip r3"
    by (simp add: read_at_def)
  have b: "scan_body dataset pf st =
           Inr (Next (st\<lparr>file_lines := drop 3 (file_lines st), line1 := dataset,
                          line2 := read_at (file_lines st) 2, collect_data := True\<rparr>))"
    using nc m
    by (simp add: scan_body_searching marker_first_def marker_second_def after_reads_def rl r3)
  show ?thesis
    by (subst scan_loop.simps) (simp add: b)
qed

subsection \<open>The end of a block\<close>

lemma after_reads_file:
  "read_at F' 0 = read_at (file_lines st) 0 \<Longrightarrow> read_at F' 1 = read_at (file_lines st) 1 \<Longrightarrow>
   after_reads (st\<lparr>file_lines := F'\<rparr>) = (after_reads st)\<lparr>file_lines := drop 2 F'\<rparr>"
  by (simp add: after_reads_def)

lemma collect_metric_file:
  "collect_metric pf (st\<lparr>file_lines := X\<rparr>) =
     (case collect_metric pf st of Inl e \<Rightarrow> Inl e | Inr u \<Rightarrow> Inr (u\<lparr>file_lines := X\<rparr>))"
  by (simp add: collect_metric_def split: option.splits)

lemma lists_of_file [simp]: "lists_of (st\<lparr>file_lines := X\<rparr>) = lists_of st"
  by (simp add: lists_of_def)

lemma scan_body_terminator:
  assumes c: "collect_data st"
    and t: "is_terminator (read_at (file_lines st) 0) \<or> is_terminator (read_at (file_lines st) 1)"
  shows "scan_body dataset pf st =
     (case collect_metric pf (after_reads st) of Inl e \<Rightarrow> Inl e | Inr u \<Rightarrow> Inr (Break u))"
proof (cases "collect_metric pf (after_reads st)")
  case (Inl e)
  with c show ?thesis by (simp add: scan_body_reads)
next
  case (Inr u)
  from collect_metric_keeps [OF Inr] c
  have u: "line1 u = read_at (file_lines st) 0" "line2 u = read_at (file_lines st) 1"
    "collect_data u" by simp_all
  from t have "line1 u = [] \<or> line2 u = [] \<or> dash_test (line1 u) (line2 u) = Inr True"
    unfolding u by (auto simp: is_terminator_def dash_test_def char0_def split: list.splits)
  with c Inr u(3) show ?thesis
    by (auto simp: scan_body_reads)
qed

lemma scan_body_plain:
  assumes c: "collect_data st"
    and t: "\<not> is_terminator (read_at (file_lines st) 0)" "\<not> is_terminator (read_at (file_lines st) 1)"
    and m: "read_at (file_lines st) 1 \<noteq> dataset"
  shows "scan_body dataset pf st =
     (case collect_metric pf (after_reads st) of Inl e \<Rightarrow> Inl e | Inr u \<Rightarrow> Inr (Next u))"
proof (cases "collect_metric pf (after_reads st)")
  case (Inl e)
  with c show ?thesis by (simp add: scan_body_reads)
next
  case (Inr u)
  from collect_metric_keeps [OF Inr] c
  have u: "line1 u = read_at (file_lines st) 0" "line2 u = read_at (file_lines st) 1"
    "collect_data u" by simp_all
  from t have ne: "line1 u \<noteq> []" "line2 u \<noteq> []" and d: "dash_test (line1 u) (line2 u) = Inr False"
    unfolding u by (auto simp: is_terminator_def dash_test_def char0_def split: list.splits)
  have "marker_first dataset (marker_second dataset u) = u"
    using m u by (simp add: marker_first_def marker_second_def)
  with c Inr u(3) ne d show ?thesis
    by (simp add: scan_body_reads)
qed

lemma stops_at_terminator_aux:
  assumes "collect_data st"
    and "file_lines st = pre @ a # b # rest"
    and "even (length pre)"
    and "\<forall>l\<in>set pre. \<not> is_terminator (strip l) \<and> strip l \<noteq> dataset"
    and "is_terminator (strip a) \<or> is_terminator (strip b)"
  shows "result_lists (scan_loop dataset pf (st\<lparr>file_lines := pre @ a # b # rest'\<rparr>)) =
         result_lists (scan_loop dataset pf st)"
  using assms
proof (induction "length pre" arbitrary: pre st rule: less_induct)
  case less
  let ?st' = "st\<lparr>file_lines := pre @ a # b # rest'\<rparr>"
  have c': "collect_data ?st'" using less.prems(1) by simp
  show ?case
  proof (cases pre)
    case Nil
    have r: "read_at (file_lines st) 0 = strip a" "read_at (file_lines st) 1 = strip b"
      "read_at (file_lines ?st') 0 = strip a" "read_at (file_lines ?st') 1 = strip b"
      using less.prems(2) Nil by (simp_all add: read_at_def readline_def)
    have t: "is_terminator (read_at (file_lines st) 0) \<or> is_terminator (read_at (file_lines st) 1)"
      "is_terminator (read_at (file_lines ?st') 0) \<or> is_terminator (read_at (file_lines ?st') 1)"
      using less.prems(5) by (simp_all only: r)
    have ar: "after_reads ?st' = (after_reads st)\<lparr>file_lines := drop 2 (pre @ a # b # rest')\<rparr>"
      using after_reads_file [of "pre @ a # b # rest'" st] r by simp
    have s1: "scan_loop dataset pf st =
        (case collect_metric pf (after_reads st) of Inl e \<Rightarrow> Some (Inl e) | Inr u \<Rightarrow> Some (Inr u))"
      by (subst scan_loop.simps)
        (simp add: scan_body_terminator [OF less.prems(1) t(1)] split: sum.splits)
    have s2: "scan_loop dataset pf ?st' =
        (case collect_metric pf (after_reads ?st') of Inl e \<Rightarrow> Some (Inl e) | Inr u \<Rightarrow> Some (Inr u))"
      by (subst scan_loop.simps)
        (simp add: scan_body_terminator [OF c' t(2)] split: sum.splits)
    show ?thesis
      unfolding s1 s2 ar collect_metric_file
      by (simp add: result_lists_def split: sum.splits)
  next
    case (Cons p1 pre1)
    with less.prems(3) obtain p2 pre2 where pre: "pre = p1 # p2 # pre2"
      by (cases pre1) auto
    have r: "read_at (file_lines st) 0 = strip p1" "read_at (file_lines st) 1 = strip p2"
      "read_at (file_lines ?st') 0 = strip p1" "read_at (file_lines ?st') 1 = strip p2"
      using less.prems(2) pre by (simp_all add: read_at_def readline_def)
    have nt: "\<not> is_terminator (strip p1)" "\<not> is_terminator (strip p2)" "strip p2 \<noteq> dataset"
      using less.prems(4) pre by simp_all
    have ar: "after_reads ?st' = (after_reads st)\<lparr>file_lines := pre2 @ a # b # rest'\<rparr>"
      using after_reads_file [of "pre @ a # b # rest'" st] r pre by simp
    have b1: "scan_body dataset pf st =
        (case collect_metric pf (after_reads st) of Inl e \<Rightarrow> Inl e | Inr u \<Rightarrow> Inr (Next u))"
      by (rule scan_body_plain [OF less.prems(1)]) (simp_all only: r nt not_False_eq_True)
    have b2: "scan_body dataset pf ?st' =
        (case collect_metric pf (after_reads ?st') of Inl e \<Rightarrow> Inl e | Inr u \<Rightarrow> Inr (Next u))"
      by (rule scan_body_plain [OF c']) (simp_all only: r nt not_False_eq_True)
    show ?thesis
    proof (cases "collect_metric pf (after_reads st)")
      case (Inl e)
      have s1: "scan_loop dataset pf st = Some (Inl e)"
        by (subst scan_loop.simps) (simp add: b1 Inl)
      have s2: "scan_loop dataset pf ?st' = Some (Inl e)"
        by (subst scan_loop.simps) (simp add: b2 ar collect_metric_file Inl)
      show ?thesis
        by (simp only: s1 s2)
    next
      case (Inr u)
      from collect_metric_keeps [OF Inr] less.prems(1,2) pre
      have u: "collect_data u" "file_lines u = pre2 @ a # b # rest" by simp_all
      have ih: "result_lists (scan_loop dataset pf (u\<lparr>file_lines := pre2 @ a # b # rest'\<rparr>)) =
          result_lists (scan_loop dataset pf u)"
        using less.hyps [of pre2 u] u less.prems(3,4,5) pre by simp
      have s1: "scan_loop dataset pf st = scan_loop dataset pf u"
        by (subst scan_loop.simps) (simp add: b1 Inr)
      have s2: "scan_loop dataset pf ?st' = scan_loop dataset pf (u\<lparr>file_lines := pre2 @ a # b # rest'\<rparr>)"
        by (subst scan_loop.simps) (simp add: b2 ar collect_metric_file Inr)
      show ?thesis
        by (simp only: s1 s2 ih)
    qed
  qed
qed

lemma stops_at_terminator_position:
  assumes "collect_data st"
    and "file_lines st = pre @ a # b # rest"
    and "even (length pre)"
    and "\<forall>l\<in>set pre. \<not> is_terminator (strip l) \<and> strip l \<noteq> dataset"
    and "is_terminator (strip a) \<or> is_terminator (strip b)"
    and "scan_loop dataset pf st = Some (Inr fin)"
  shows "file_lines fin = rest"
  using assms
proof (induction "length pre" arbitrary: pre st rule: less_induct)
  case less
  show ?case
  proof (cases pre)
    case Nil
    have r: "read_at (file_lines st) 0 = strip a" "read_at (file_lines st) 1 = strip b"
      using less.prems(2) Nil by (simp_all add: read_at_def readline_def)
    have t: "is_terminator (read_at (file_lines st) 0) \<or> is_terminator (read_at (file_lines st) 1)"
      using less.prems(5) by (simp only: r)
    have s1: "scan_loop dataset pf st =
        (case collect_metric pf (after_reads st) of Inl e \<Rightarrow> Some (Inl e) | Inr u \<Rightarrow> Some (Inr u))"
      by (subst scan_loop.simps)
        (simp add: scan_body_terminator [OF less.prems(1) t] split: sum.splits)
    with less.prems(6) have "collect_metric pf (after_reads st) = Inr fin"
      by (simp split: sum.splits)
    from collect_metric_keeps [OF this] less.prems(2) Nil show ?thesis by simp
  next
    case (Cons p1 pre1)
    with less.prems(3) obtain p2 pre2 where pre: "pre = p1 # p2 # pre2"
      by (cases pre1) auto
    have r: "read_at (file_lines st) 0 = strip p1" "read_at (file_lines st) 1 = strip p2"
      using less.prems(2) pre by (simp_all add: read_at_def readline_def)
    have nt: "\<not> is_terminator (strip p1)" "\<not> is_terminator (strip p2)" "strip p2 \<noteq> dataset"
      using less.prems(4) pre by simp_all
    have b1: "scan_body dataset pf st =
        (case collect_metric pf (after_reads st) of Inl e \<Rightarrow> Inl e | Inr u \<Rightarrow> Inr (Next u))"
      by (rule scan_body_plain [OF less.prems(1)]) (simp_all only: r nt not_False_eq_True)
    show ?thesis
    proof (cases "collect_metric pf (after_reads st)")
      case (Inl e)
      have "scan_loop dataset pf st = Some (Inl e)"
        by (subst scan_loop.simps) (simp add: b1 Inl)
      with less.prems(6) show ?thesis by simp
    next
      case (Inr u)
      from collect_metric_keeps [OF Inr] less.prems(1,2) pre
      have u: "collect_data u" "file_lines u = pre2 @ a # b # rest" by simp_all
      have s1: "scan_loop dataset pf st = scan_loop dataset pf u"
        by (subst scan_loop.simps) (simp add: b1 Inr)
      show ?thesis
        using less.hyps [of pre2 u] u less.prems(3,4,5,6) pre s1 by simp
    qed
  qed
qed

text \<open>
  C6: while the scan collects, let the lines not read yet be an even number of lines \<open>pre\<close>,
  none of them empty, starting with a dash or equal to the marker, then a pair \<open>(a, b)\<close> with
  an empty line or a line starting with a dash. Then the loop ends (with a \<^verbatim>\<open>break\<close> or an
  exception); when it ends with a \<^verbatim>\<open>break\<close>, the lines after that pair are all unread; and the
  result is the same whatever follows the pair: no line after it contributes a value.
\<close>

theorem scan_stops_at_terminator:
  assumes c: "collect_data st"
    and f: "file_lines st = pre @ a # b # rest"
    and e: "even (length pre)"
    and p: "\<forall>l\<in>set pre. \<not> is_terminator (strip l) \<and> strip l \<noteq> dataset"
    and t: "is_terminator (strip a) \<or> is_terminator (strip b)"
  shows "(\<exists>out. scan_loop dataset pf st = Some out)
     \<and> (\<forall>fin. scan_loop dataset pf st = Some (Inr fin) \<longrightarrow> file_lines fin = rest)
     \<and> (\<forall>rest'. result_lists (scan_loop dataset pf (st\<lparr>file_lines := pre @ a # b # rest'\<rparr>)) =
                 result_lists (scan_loop dataset pf st))"
  using collecting_terminates [OF c] stops_at_terminator_position [OF c f e p t]
    stops_at_terminator_aux [OF c f e p t]
  by blast

theorem scan_stops_at_terminator_witness:
  "scan_file dataset_cif float_dec (text_file [dataset_cif, ''h''] @ dash_file) ([], [], []) =
     Some (Inr ([- (3 / 2)], [2], []))
   \<and> (\<forall>rest'. result_lists (scan_loop dataset_cif float_dec
          ((init_state (take 4 dash_file @ rest') ([], [], [])) \<lparr>collect_data := True\<rparr>)) =
        Some (Inr ([- (3 / 2)], [2 :: rat], [])))"
proof -
  let ?st = "(init_state dash_file ([], [], []) :: rat scan_state) \<lparr>collect_data := True\<rparr>"
  have c: "collect_data ?st" by simp
  have f: "file_lines ?st = text_file [''mser'', ''2.0''] @ ''disparity\<newline>'' # ''-1.5\<newline>'' # text_file [''tracking'', ''0.5'']"
    by (simp add: dash_file_def text_file_def)
  have e: "even (length (text_file [''mser'', ''2.0'']))" by (simp add: text_file_def)
  have p: "\<forall>l\<in>set (text_file [''mser'', ''2.0'']). \<not> is_terminator (strip l) \<and> strip l \<noteq> dataset_cif"
    by code_simp
  have t: "is_terminator (strip ''disparity\<newline>'') \<or> is_terminator (strip ''-1.5\<newline>'')"
    by code_simp
  have v: "result_lists (scan_loop dataset_cif float_dec ?st) = Some (Inr ([- (3 / 2)], [2], []))"
    by code_simp
  have w: "scan_file dataset_cif float_dec (text_file [dataset_cif, ''h''] @ dash_file) ([], [], []) =
     Some (Inr ([- (3 / 2)], [2], []))"
    by code_simp
  have i: "(init_state (take 4 dash_file @ rest') ([], [], []) :: rat scan_state) \<lparr>collect_data := True\<rparr>
      = ?st\<lparr>file_lines := text_file [''mser'', ''2.0''] @ ''disparity\<newline>'' # ''-1.5\<newline>'' # rest'\<rparr>" for rest'
    by (simp add: init_state_def dash_file_def text_file_def)
  from scan_stops_at_terminator [OF c f e p t, of float_dec] v w
  show ?thesis by (simp only: i) simp
qed

subsection \<open>The series that \<^verbatim>\<open>per_vision_data\<close> returns\<close>

lemma prefixed_simps [simp]:
  "file_lines (prefixed acc st) = file_lines st"
  "line1 (prefixed acc st) = line1 st"
  "line2 (prefixed acc st) = line2 st"
  "collect_data (prefixed acc st) = collect_data st"
  "lists_of (prefixed acc st) = extended acc (lists_of st)"
  by (simp_all add: prefixed_def extended_def lists_of_def split: prod.splits)

lemma prefixed_after_reads: "after_reads (prefixed acc st) = prefixed acc (after_reads st)"
  by (simp add: after_reads_def prefixed_def split: prod.splits)

lemma prefixed_collect_metric:
  "collect_metric pf (prefixed acc st) =
     (case collect_metric pf st of Inl e \<Rightarrow> Inl e | Inr u \<Rightarrow> Inr (prefixed acc u))"
  by (simp add: collect_metric_def prefixed_def split: prod.splits option.splits)

lemma prefixed_markers:
  "marker_first dataset (marker_second dataset (prefixed acc st)) =
   prefixed acc (marker_first dataset (marker_second dataset st))"
  by (simp add: marker_first_def marker_second_def prefixed_def split: prod.splits)

lemma prefixed_scan_body:
  "scan_body dataset pf (prefixed acc st) =
     (case scan_body dataset pf st of
        Inl e \<Rightarrow> Inl e
      | Inr (Break u) \<Rightarrow> Inr (Break (prefixed acc u))
      | Inr (Next u) \<Rightarrow> Inr (Next (prefixed acc u)))"
  by (simp add: scan_body_reads prefixed_after_reads prefixed_collect_metric prefixed_markers
      split: sum.splits bool.splits)

lemma prefixed_scan_loop:
  assumes some: "scan_loop dataset pf st = Some r"
  shows "scan_loop dataset pf (prefixed acc st) =
     Some (case r of Inl e \<Rightarrow> Inl e | Inr u \<Rightarrow> Inr (prefixed acc u))"
proof (rule scan_loop.raw_induct
    [where P = "\<lambda>d p s y. scan_loop d p (prefixed acc s) =
       Some (case y of Inl e \<Rightarrow> Inl e | Inr u \<Rightarrow> Inr (prefixed acc u))", OF _ some])
  fix f :: "string \<Rightarrow> (string \<Rightarrow> 'a option) \<Rightarrow> 'a scan_state \<Rightarrow> (error + 'a scan_state) option"
  fix d p s y
  assume ih: "\<And>d p s y. f d p s = Some y \<Longrightarrow>
      scan_loop d p (prefixed acc s) = Some (case y of Inl e \<Rightarrow> Inl e | Inr u \<Rightarrow> Inr (prefixed acc u))"
  assume step: "(case scan_body d p s of
        Inl e \<Rightarrow> Some (Inl e)
      | Inr (Break st') \<Rightarrow> Some (Inr st')
      | Inr (Next st') \<Rightarrow> f d p st') = Some y"
  show "scan_loop d p (prefixed acc s) = Some (case y of Inl e \<Rightarrow> Inl e | Inr u \<Rightarrow> Inr (prefixed acc u))"
  proof (cases "scan_body d p s")
    case (Inl e)
    with step show ?thesis
      by (subst scan_loop.simps) (auto simp: prefixed_scan_body)
  next
    case (Inr w)
    show ?thesis
    proof (cases w)
      case (Break u)
      with Inr step show ?thesis
        by (subst scan_loop.simps) (auto simp: prefixed_scan_body)
    next
      case (Next u)
      with Inr step have "f d p u = Some y" by simp
      from ih [OF this] Inr Next show ?thesis
        by (subst scan_loop.simps) (simp add: prefixed_scan_body)
    qed
  qed
qed

lemma init_state_prefixed: "init_state ls acc = prefixed acc (init_state ls ([], [], []))"
  by (simp add: init_state_def prefixed_def split: prod.splits)

lemma extended_Nil [simp]: "extended ([], [], []) new = new"
  by (simp add: extended_def split: prod.splits)

lemma scan_file_None_iff:
  "scan_file dataset pf ls acc = None \<longleftrightarrow> (\<forall>i. read_at ls i \<noteq> dataset)"
proof (cases "\<exists>i. read_at ls i = dataset")
  case True
  then obtain i where "read_at (file_lines (init_state ls acc)) i = dataset" by auto
  then have "\<exists>r. scan_loop dataset pf (init_state ls acc) = Some r"
    by (rule searching_terminates [rotated]) simp
  with True show ?thesis
    by (auto simp: scan_file_def result_lists_def split: sum.splits)
next
  case False
  have "scan_loop dataset pf (init_state ls acc) = None"
  proof (rule searching_forever)
    show "\<not> collect_data (init_state ls acc)" by simp
    show "\<forall>i. read_at (file_lines (init_state ls acc)) i \<noteq> dataset" using False by simp
  qed
  then have "scan_file dataset pf ls acc = None"
    by (simp add: scan_file_def result_lists_def)
  with False show ?thesis by blast
qed

lemma scan_file_extended:
  "scan_file dataset pf ls acc =
     (case scan_file dataset pf ls ([], [], []) of
        None \<Rightarrow> None
      | Some (Inl e) \<Rightarrow> Some (Inl e)
      | Some (Inr new) \<Rightarrow> Some (Inr (extended acc new)))"
proof (cases "scan_loop dataset pf (init_state ls ([], [], []))")
  case None
  then have "scan_file dataset pf ls ([], [], []) = None"
    by (simp add: scan_file_def result_lists_def)
  moreover from this have "scan_file dataset pf ls acc = None"
    using scan_file_None_iff [of dataset pf ls acc]
      scan_file_None_iff [of dataset pf ls "([], [], [])"] by blast
  ultimately show ?thesis by simp
next
  case (Some r)
  from prefixed_scan_loop [OF Some, of acc] Some show ?thesis
    by (simp add: scan_file_def result_lists_def init_state_prefixed [of ls acc] split: sum.splits)
qed

lemma size_body_eq:
  "size_body fs pf folder dataset t s (opened, acc) =
     (if skipped t s then (opened, Some (Inr acc))
      else (opened @ [filename_of folder t s],
            case file_result fs pf folder dataset t s of
              None \<Rightarrow> None
            | Some (Inl e) \<Rightarrow> Some (Inl e)
            | Some (Inr new) \<Rightarrow> Some (Inr (extended acc new))))"
  by (simp add: size_body_def skipped_def file_result_def scan_file_extended [of dataset pf _ acc]
      split: option.splits)

lemma contributes_oneD:
  assumes "contributes_one fs pf folder dataset t s"
  obtains a b c where "file_result fs pf folder dataset t s = Some (Inr ([a], [b], [c]))"
proof -
  from assms obtain d m tr where
    r: "file_result fs pf folder dataset t s = Some (Inr (d, m, tr))"
    and l: "length d = 1" "length m = 1" "length tr = 1"
    by (auto simp: contributes_one_def split: option.splits sum.splits)
  from l obtain a b c where "d = [a]" "m = [b]" "tr = [c]"
    by (auto simp: length_Suc_conv)
  with r that show ?thesis by blast
qed

lemma sizes_loop_all_one:
  assumes "\<forall>s\<in>set ss. skipped t s \<or> contributes_one fs pf folder dataset t s"
  shows "\<exists>opened' d m tr.
     sizes_loop fs pf folder dataset t ss (opened, (ds, ms, ts)) =
       (opened', Some (Inr (ds @ d, ms @ m, ts @ tr)))
     \<and> length d = length (filter (\<lambda>s. \<not> skipped t s) ss)
     \<and> length m = length (filter (\<lambda>s. \<not> skipped t s) ss)
     \<and> length tr = length (filter (\<lambda>s. \<not> skipped t s) ss)"
  using assms
proof (induction ss arbitrary: opened ds ms ts)
  case Nil
  then show ?case by simp
next
  case (Cons s ss)
  show ?case
  proof (cases "skipped t s")
    case True
    from Cons.IH [of opened ds ms ts] Cons.prems True show ?thesis
      by (simp add: size_body_eq)
  next
    case False
    with Cons.prems have "contributes_one fs pf folder dataset t s" by simp
    then obtain a b c where r: "file_result fs pf folder dataset t s = Some (Inr ([a], [b], [c]))"
      by (rule contributes_oneD)
    from Cons.IH [of "opened @ [filename_of folder t s]" "ds @ [a]" "ms @ [b]" "ts @ [c]"] Cons.prems
    obtain opened' d m tr where
      ih: "sizes_loop fs pf folder dataset t ss
            (opened @ [filename_of folder t s], (ds @ [a], ms @ [b], ts @ [c])) =
           (opened', Some (Inr ((ds @ [a]) @ d, (ms @ [b]) @ m, (ts @ [c]) @ tr)))"
      and l: "length d = length (filter (\<lambda>s. \<not> skipped t s) ss)"
        "length m = length (filter (\<lambda>s. \<not> skipped t s) ss)"
        "length tr = length (filter (\<lambda>s. \<not> skipped t s) ss)"
      by auto
    have "sizes_loop fs pf folder dataset t (s # ss) (opened, (ds, ms, ts)) =
        (opened', Some (Inr (ds @ (a # d), ms @ (b # m), ts @ (c # tr))))"
      using False r ih by (simp add: size_body_eq extended_def)
    with l False show ?thesis by auto
  qed
qed

lemma sizes_loop_none:
  assumes r: "file_result fs pf folder dataset ''none'' 8 = Some (Inr new)"
  shows "sizes_loop fs pf folder dataset ''none'' per_vision_data_sizes (opened, ([], [], [])) =
     (opened @ [filename_of folder ''none'' 8], Some (Inr new))"
  by (simp add: sizes_value size_body_eq skipped_def r)

lemma sizes_loop_other:
  assumes pre: "all_contribute_one fs pf folder dataset"
    and t: "t \<in> set types" "t \<noteq> ''none''"
  shows "\<exists>opened' d m tr.
     sizes_loop fs pf folder dataset t per_vision_data_sizes (opened, ([], [], [])) =
       (opened', Some (Inr (d, m, tr)))
     \<and> length d = 37 \<and> length m = 37 \<and> length tr = 37"
proof -
  have all: "\<forall>s\<in>set per_vision_data_sizes. skipped t s \<or> contributes_one fs pf folder dataset t s"
    using pre t(1) by (simp add: all_contribute_one_def)
  have n: "length (filter (\<lambda>s. \<not> skipped t s) per_vision_data_sizes) = 37"
    using t(2) by (simp add: skipped_def sizes_value)
  from sizes_loop_all_one [OF all, of opened "[]" "[]" "[]"] n show ?thesis
    by auto
qed

lemma per_vision_data_all_one:
  assumes pre: "all_contribute_one fs pf folder dataset"
  shows "\<exists>opened disparity mser tracking a b c.
     per_vision_data fs pf folder dataset = (opened, Some (Inr (disparity, mser, tracking)))
     \<and> file_result fs pf folder dataset ''none'' 8 = Some (Inr ([a], [b], [c]))
     \<and> disparity ''none'' = Some [a] \<and> mser ''none'' = Some [b] \<and> tracking ''none'' = Some [c]
     \<and> (\<forall>t\<in>set (drop 1 types). \<exists>d m tr.
           disparity t = Some (a # d) \<and> mser t = Some (a # m) \<and> tracking t = Some (c # tr)
           \<and> length d = 37 \<and> length m = 37 \<and> length tr = 37)"
proof -
  have "contributes_one fs pf folder dataset ''none'' 8"
    using pre by (simp add: all_contribute_one_def types_def sizes_value skipped_def)
  then obtain a b c where r: "file_result fs pf folder dataset ''none'' 8 = Some (Inr ([a], [b], [c]))"
    by (rule contributes_oneD)
  note l0 = sizes_loop_none [OF r]
  obtain o1 d1 m1 t1 where l1:
    "sizes_loop fs pf folder dataset ''read'' per_vision_data_sizes
       ([filename_of folder ''none'' 8], ([], [], [])) = (o1, Some (Inr (d1, m1, t1)))"
    "length d1 = 37" "length m1 = 37" "length t1 = 37"
    using sizes_loop_other [OF pre, where t = "''read''" and opened = "[filename_of folder ''none'' 8]"]
    by (auto simp: types_def)
  obtain o2 d2 m2 t2 where l2:
    "sizes_loop fs pf folder dataset ''write'' per_vision_data_sizes (o1, ([], [], [])) =
       (o2, Some (Inr (d2, m2, t2)))"
    "length d2 = 37" "length m2 = 37" "length t2 = 37"
    using sizes_loop_other [OF pre, where t = "''write''" and opened = "o1"]
    by (auto simp: types_def)
  obtain o3 d3 m3 t3 where l3:
    "sizes_loop fs pf folder dataset ''modify'' per_vision_data_sizes (o2, ([], [], [])) =
       (o3, Some (Inr (d3, m3, t3)))"
    "length d3 = 37" "length m3 = 37" "length t3 = 37"
    using sizes_loop_other [OF pre, where t = "''modify''" and opened = "o2"]
    by (auto simp: types_def)
  obtain o4 d4 m4 t4 where l4:
    "sizes_loop fs pf folder dataset ''prefetch_l3'' per_vision_data_sizes (o3, ([], [], [])) =
       (o4, Some (Inr (d4, m4, t4)))"
    "length d4 = 37" "length m4 = 37" "length t4 = 37"
    using sizes_loop_other [OF pre, where t = "''prefetch_l3''" and opened = "o3"]
    by (auto simp: types_def)
  have "per_vision_data fs pf folder dataset =
      (o4, Some (Inr
        ([''none'' \<mapsto> [a], ''read'' \<mapsto> a # d1, ''write'' \<mapsto> a # d2, ''modify'' \<mapsto> a # d3,
          ''prefetch_l3'' \<mapsto> a # d4],
         [''none'' \<mapsto> [b], ''read'' \<mapsto> a # m1, ''write'' \<mapsto> a # m2, ''modify'' \<mapsto> a # m3,
          ''prefetch_l3'' \<mapsto> a # m4],
         [''none'' \<mapsto> [c], ''read'' \<mapsto> c # t1, ''write'' \<mapsto> c # t2, ''modify'' \<mapsto> c # t3,
          ''prefetch_l3'' \<mapsto> c # t4])))"
    by (simp add: per_vision_data_def types_def l0 l1(1) l2(1) l3(1) l4(1) prepend_body_def
        insert_baseline_def fun_upd_twist)
  with r l1 l2 l3 l4 show ?thesis
    by (simp add: types_def)
qed

lemma sample_file_result:
  "file_result sample_fs float_dec folder dataset_cif t s = Some (Inr ([3 / 2], [2], [1 / 2]))"
proof -
  have "scan_file dataset_cif float_dec (block_file dataset_cif ''header\<newline>'') ([], [], []) =
      Some (Inr ([3 / 2], [2], [1 / 2]))"
    by code_simp
  then show ?thesis
    by (simp add: file_result_def sample_fs_def)
qed

lemma sample_all_contribute_one: "all_contribute_one sample_fs float_dec folder dataset_cif"
  by (simp add: all_contribute_one_def contributes_one_def sample_file_result)

text \<open>
  C1: the code prepends \<^verbatim>\<open>disparity['none'][0]\<close> to every \<^verbatim>\<open>mser\<close> series (line 77). With
  the sample files, where the baseline of \<^verbatim>\<open>mser\<close> is 2.0 and that of \<^verbatim>\<open>disparity\<close> is 1.5, the
  first element of \<^verbatim>\<open>mser['read']\<close> is 1.5, not the single value 2.0 of \<^verbatim>\<open>mser['none']\<close>.
\<close>

theorem mser_baseline_is_disparity:
  "(case snd (per_vision_data sample_fs float_dec ''/data'' dataset_cif) of
      Some (Inr (disparity, mser, tracking)) \<Rightarrow>
        mser ''none'' = Some [2] \<and> map_option hd (mser ''read'') = Some (3 / 2)
        \<and> disparity ''none'' = Some [3 / 2]
    | _ \<Rightarrow> False)"
  using per_vision_data_all_one [OF sample_all_contribute_one, of "''/data''"]
  by (auto simp: sample_file_result types_def)

text \<open>
  C7, as the claim states it, fails: the sequence of sizes has 37 elements, so a series
  with the baseline in front has 38 elements, not 37.
\<close>

theorem series_length_not_37:
  "all_contribute_one sample_fs float_dec ''/data'' dataset_cif
   \<and> (case snd (per_vision_data sample_fs float_dec ''/data'' dataset_cif) of
        Some (Inr (disparity, mser, tracking)) \<Rightarrow>
          map_option length (disparity ''read'') = Some 38
          \<and> map_option length (disparity ''read'') \<noteq> Some 37
      | _ \<Rightarrow> False)"
  using per_vision_data_all_one [OF sample_all_contribute_one, of "''/data''"]
    sample_all_contribute_one [of "''/data''"]
  by (auto simp: types_def)

text \<open>
  C7, amended: when every file that is opened contributes exactly one value per metric,
  \<^verbatim>\<open>per_vision_data\<close> returns, every series of \<^verbatim>\<open>read\<close>, \<^verbatim>\<open>write\<close>, \<^verbatim>\<open>modify\<close> and
  \<^verbatim>\<open>prefetch_l3\<close> has \<open>len(sizes) + 1\<close> elements, that is 38, and every series of \<^verbatim>\<open>none\<close>
  has one element.
\<close>

theorem series_lengths:
  assumes pre: "all_contribute_one fs pf folder dataset"
  shows "\<exists>opened disparity mser tracking.
     per_vision_data fs pf folder dataset = (opened, Some (Inr (disparity, mser, tracking)))
     \<and> (\<forall>t\<in>set (drop 1 types).
           map_option length (disparity t) = Some (length per_vision_data_sizes + 1)
           \<and> map_option length (mser t) = Some (length per_vision_data_sizes + 1)
           \<and> map_option length (tracking t) = Some (length per_vision_data_sizes + 1))
     \<and> length per_vision_data_sizes + 1 = 38
     \<and> map_option length (disparity ''none'') = Some 1
     \<and> map_option length (mser ''none'') = Some 1
     \<and> map_option length (tracking ''none'') = Some 1"
proof -
  from per_vision_data_all_one [OF pre]
  obtain opened disparity mser tracking a b c where
    r: "per_vision_data fs pf folder dataset = (opened, Some (Inr (disparity, mser, tracking)))"
    and n: "disparity ''none'' = Some [a]" "mser ''none'' = Some [b]" "tracking ''none'' = Some [c]"
    and o: "\<forall>t\<in>set (drop 1 types). \<exists>d m tr.
           disparity t = Some (a # d) \<and> mser t = Some (a # m) \<and> tracking t = Some (c # tr)
           \<and> length d = 37 \<and> length m = 37 \<and> length tr = 37"
    by blast
  have l: "length per_vision_data_sizes = 37" by (simp add: sizes_value)
  from o have "\<forall>t\<in>set (drop 1 types).
           map_option length (disparity t) = Some (length per_vision_data_sizes + 1)
           \<and> map_option length (mser t) = Some (length per_vision_data_sizes + 1)
           \<and> map_option length (tracking t) = Some (length per_vision_data_sizes + 1)"
    unfolding l by fastforce
  with r n l show ?thesis by simp
qed

theorem series_lengths_witness:
  "all_contribute_one sample_fs float_dec ''/data'' dataset_cif
   \<and> (case snd (per_vision_data sample_fs float_dec ''/data'' dataset_cif) of
        Some (Inr (disparity, mser, tracking)) \<Rightarrow>
          map_option length (tracking ''prefetch_l3'') = Some 38
          \<and> map_option length (tracking ''none'') = Some 1
      | _ \<Rightarrow> False)"
  using series_lengths [OF sample_all_contribute_one, of "''/data''"]
    sample_all_contribute_one [of "''/data''"]
  by (auto simp: types_def sizes_value)

subsection \<open>The files opened, and errors\<close>

lemma str_nat_nonempty: "str_nat n \<noteq> []"
  by (subst str_nat.simps) simp

lemma digit_char_values:
  "digit_char 0 = CHR ''0''" "digit_char 1 = CHR ''1''" "digit_char 2 = CHR ''2''"
  "digit_char 3 = CHR ''3''" "digit_char 4 = CHR ''4''" "digit_char 5 = CHR ''5''"
  "digit_char 6 = CHR ''6''" "digit_char 7 = CHR ''7''" "digit_char 8 = CHR ''8''"
  "digit_char 9 = CHR ''9''"
  by code_simp+

lemma digit_char_8: "n < 10 \<Longrightarrow> digit_char n = CHR ''8'' \<Longrightarrow> n = 8"
proof -
  assume "n < 10"
  then have "n \<in> {0, 1, 2, 3, 4, 5, 6, 7, 8, 9}" by auto
  moreover assume "digit_char n = CHR ''8''"
  ultimately show "n = 8"
    using digit_char_values by auto
qed

lemma str_eq_8: "str s = ''8'' \<Longrightarrow> s = 8"
proof -
  assume a: "str s = ''8''"
  show "s = 8"
  proof (cases "s < 0")
    case True
    with a show ?thesis by (simp add: str_def)
  next
    case False
    with a have n: "str_nat (nat s) = ''8''" by (simp add: str_def)
    show ?thesis
    proof (cases "nat s < 10")
      case True
      with n have "digit_char (nat s) = CHR ''8''"
        by (subst (asm) str_nat.simps) simp
      with True have "nat s = 8" by (rule digit_char_8)
      with False show ?thesis by simp
    next
      case False
      with n have "str_nat (nat s div 10) @ [digit_char (nat s mod 10)] = ''8''"
        by (subst (asm) str_nat.simps) simp
      then have "str_nat (nat s div 10) = []"
        by (simp add: append_eq_Cons_conv)
      with str_nat_nonempty show ?thesis by blast
    qed
  qed
qed

lemma str_8: "str 8 = ''8''"
  by (simp add: str_def str_nat.simps digit_char_values)

lemma sizes_loop_opened:
  "\<exists>more. fst (sizes_loop fs pf folder dataset t ss (opened, acc)) = opened @ more
     \<and> set more \<subseteq> {filename_of folder t s |s. s \<in> set ss \<and> \<not> skipped t s}"
proof (induction ss arbitrary: opened acc)
  case Nil
  show ?case by simp
next
  case (Cons s ss)
  show ?case
  proof (cases "skipped t s")
    case True
    from Cons.IH [of opened acc] True show ?thesis
      by (auto simp: size_body_eq)
  next
    case False
    let ?fn = "filename_of folder t s"
    show ?thesis
    proof (cases "file_result fs pf folder dataset t s")
      case None
      with False show ?thesis by (simp add: size_body_eq) blast
    next
      case (Some r)
      show ?thesis
      proof (cases r)
        case (Inl e)
        with Some False show ?thesis by (simp add: size_body_eq) blast
      next
        case (Inr new)
        from Cons.IH [of "opened @ [?fn]" "extended acc new"]
        obtain more where m: "fst (sizes_loop fs pf folder dataset t ss (opened @ [?fn], extended acc new))
            = (opened @ [?fn]) @ more"
          "set more \<subseteq> {filename_of folder t s |s. s \<in> set ss \<and> \<not> skipped t s}"
          by blast
        have "fst (sizes_loop fs pf folder dataset t (s # ss) (opened, acc)) = opened @ (?fn # more)"
          using Some Inr False m(1) by (simp add: size_body_eq)
        moreover have "set (?fn # more) \<subseteq>
            {filename_of folder t s' |s'. s' \<in> set (s # ss) \<and> \<not> skipped t s'}"
          using m(2) False by auto
        ultimately show ?thesis by blast
      qed
    qed
  qed
qed

lemma types_loop_opened:
  "\<exists>more. fst (types_loop fs pf folder dataset ts sizes (opened, dm)) = opened @ more
     \<and> set more \<subseteq> {filename_of folder t s |t s. t \<in> set ts \<and> s \<in> set sizes \<and> \<not> skipped t s}"
proof (induction ts arbitrary: opened dm)
  case Nil
  show ?case by simp
next
  case (Cons t ts)
  obtain o1 r where sl: "sizes_loop fs pf folder dataset t sizes (opened, ([], [], [])) = (o1, r)"
    by (cases "sizes_loop fs pf folder dataset t sizes (opened, ([], [], []))")
  from sizes_loop_opened [of fs pf folder dataset t sizes opened "([], [], [])"] sl
  obtain m1 where m1: "o1 = opened @ m1"
    "set m1 \<subseteq> {filename_of folder t s |s. s \<in> set sizes \<and> \<not> skipped t s}"
    by auto
  show ?case
  proof (cases "\<exists>acc. r = Some (Inr acc)")
    case False
    then have "fst (types_loop fs pf folder dataset (t # ts) sizes (opened, dm)) = opened @ m1"
      using sl m1(1) by (cases r; cases "the r") auto
    moreover have "set m1 \<subseteq>
        {filename_of folder t' s |t' s. t' \<in> set (t # ts) \<and> s \<in> set sizes \<and> \<not> skipped t' s}"
      using m1(2) by fastforce
    ultimately show ?thesis by blast
  next
    case True
    then obtain d m tr where r: "r = Some (Inr (d, m, tr))" by (cases "the r") auto
    obtain D M T where dm: "dm = (D, M, T)" by (cases dm)
    from Cons.IH [of o1 "(D(t \<mapsto> d), M(t \<mapsto> m), T(t \<mapsto> tr))"]
    obtain m2 where m2:
      "fst (types_loop fs pf folder dataset ts sizes (o1, (D(t \<mapsto> d), M(t \<mapsto> m), T(t \<mapsto> tr))))
         = o1 @ m2"
      "set m2 \<subseteq> {filename_of folder t s |t s. t \<in> set ts \<and> s \<in> set sizes \<and> \<not> skipped t s}"
      by blast
    have "fst (types_loop fs pf folder dataset (t # ts) sizes (opened, dm)) = opened @ (m1 @ m2)"
      using sl r dm m1(1) m2(1) by simp
    moreover have "set (m1 @ m2) \<subseteq>
        {filename_of folder t' s |t' s. t' \<in> set (t # ts) \<and> s \<in> set sizes \<and> \<not> skipped t' s}"
      using m1(2) m2(2) by fastforce
    ultimately show ?thesis by blast
  qed
qed

lemma per_vision_data_opened:
  "fst (per_vision_data fs pf folder dataset) =
   fst (types_loop fs pf folder dataset types per_vision_data_sizes
          ([], (Map.empty, Map.empty, Map.empty)))"
  by (simp add: per_vision_data_def split: prod.splits option.splits sum.splits)

lemma filename_none_eq:
  assumes eq: "filename_of folder ''none'' s = filename_of folder t s'"
    and t: "t \<in> set types"
  shows "t = ''none'' \<and> str s = str s'"
  using t eq by (auto simp: filename_of_def types_def)

lemma opened_none_files:
  assumes "filename_of folder ''none'' s \<in> set (fst (per_vision_data fs pf folder dataset))"
  shows "s = 8"
proof -
  from types_loop_opened [of fs pf folder dataset types per_vision_data_sizes "[]"
      "(Map.empty, Map.empty, Map.empty)"] assms
  obtain t s' where ts: "filename_of folder ''none'' s = filename_of folder t s'"
    "t \<in> set types" "s' \<in> set per_vision_data_sizes" "\<not> skipped t s'"
    by (auto simp: per_vision_data_opened)
  from filename_none_eq [OF ts(1,2)] have t: "t = ''none''" and st: "str s = str s'" by simp_all
  from ts(3,4) t have "s' = 8"
    by (auto simp: skipped_def sizes_value)
  with st show ?thesis by (simp add: str_8 str_eq_8)
qed

lemma first_opened:
  "\<exists>more. fst (per_vision_data fs pf folder dataset) = filename_of folder ''none'' 8 # more"
proof -
  obtain ss where ss: "per_vision_data_sizes = 8 # ss" by (simp add: sizes_value)
  obtain o1 r where sb: "size_body fs pf folder dataset ''none'' 8 ([], ([], [], [])) = (o1, r)"
    by (cases "size_body fs pf folder dataset ''none'' 8 ([], ([], [], []))")
  then have o1: "o1 = [filename_of folder ''none'' 8]"
    by (simp add: size_body_eq skipped_def)
  obtain o2 r2 where sl:
    "sizes_loop fs pf folder dataset ''none'' per_vision_data_sizes ([], ([], [], [])) = (o2, r2)"
    by (cases "sizes_loop fs pf folder dataset ''none'' per_vision_data_sizes ([], ([], [], []))")
  have "\<exists>m. o2 = filename_of folder ''none'' 8 # m"
  proof (cases "\<exists>acc. r = Some (Inr acc)")
    case False
    then have "o2 = o1" using sl sb unfolding ss by (cases r; cases "the r") auto
    with o1 show ?thesis by simp
  next
    case True
    then obtain acc where r: "r = Some (Inr acc)" by blast
    from sizes_loop_opened [of fs pf folder dataset "''none''" ss o1 acc] sl sb r o1
    show ?thesis unfolding ss by auto
  qed
  then obtain m where o2: "o2 = filename_of folder ''none'' 8 # m" ..
  obtain ts where ty: "types = ''none'' # ts" by (simp add: types_def)
  show ?thesis
  proof (cases "\<exists>acc. r2 = Some (Inr acc)")
    case False
    then have "fst (per_vision_data fs pf folder dataset) = o2"
      using sl unfolding per_vision_data_opened ty by (cases r2; cases "the r2") auto
    with o2 show ?thesis by simp
  next
    case True
    then obtain d mm tr where r2: "r2 = Some (Inr (d, mm, tr))" by auto
    from types_loop_opened [of fs pf folder dataset ts per_vision_data_sizes o2]
    show ?thesis
      using sl r2 o2 unfolding per_vision_data_opened ty by (simp) (metis append_Cons)
  qed
qed

text \<open>
  C8: whatever the files hold, the first file that \<^verbatim>\<open>per_vision_data\<close> opens is the file of
  \<^verbatim>\<open>none\<close> for size 8, no file of \<^verbatim>\<open>none\<close> for a size above 8 is ever opened, and size 8 is the
  only size for which a file of \<^verbatim>\<open>none\<close> is opened.
\<close>

theorem none_only_size_8:
  "(\<exists>more. fst (per_vision_data fs pf folder dataset) = filename_of folder ''none'' 8 # more)
   \<and> (\<forall>s. 8 < s \<longrightarrow> filename_of folder ''none'' s \<notin> set (fst (per_vision_data fs pf folder dataset)))
   \<and> (\<forall>s. filename_of folder ''none'' s \<in> set (fst (per_vision_data fs pf folder dataset)) \<longrightarrow> s = 8)"
  using first_opened [of fs pf folder dataset] opened_none_files [of folder _ fs pf dataset]
  by fastforce

theorem none_only_size_8_witness:
  "(8 :: int) < 16
   \<and> filename_of ''/data'' ''none'' 16 \<notin> set (fst (per_vision_data sample_fs float_dec ''/data'' dataset_cif))
   \<and> hd (fst (per_vision_data sample_fs float_dec ''/data'' dataset_cif)) = ''/data/none_8.txt''"
proof -
  let ?opened = "fst (per_vision_data sample_fs float_dec ''/data'' dataset_cif)"
  have fn: "filename_of ''/data'' ''none'' 8 = ''/data/none_8.txt''"
    by (simp add: filename_of_def str_8)
  note t = none_only_size_8 [of sample_fs float_dec "''/data''" dataset_cif]
  from t obtain more where "?opened = filename_of ''/data'' ''none'' 8 # more"
    by blast
  then have h: "hd ?opened = ''/data/none_8.txt''"
    by (simp only: fn list.sel)
  have lt: "(8 :: int) < 16" by simp
  from t have "(8 :: int) < 16 \<longrightarrow> filename_of ''/data'' ''none'' 16 \<notin> set ?opened"
    by blast
  with lt have "filename_of ''/data'' ''none'' 16 \<notin> set ?opened"
    by (rule rev_mp)
  with lt h show ?thesis by blast
qed

lemma reads_okD:
  assumes "reads_ok fs pf folder dataset t s"
  obtains new where "file_result fs pf folder dataset t s = Some (Inr new)"
  using assms by (auto simp: reads_ok_def split: option.splits sum.splits)

lemma sizes_loop_all_ok:
  assumes "\<forall>s\<in>set ss. skipped t s \<or> reads_ok fs pf folder dataset t s"
  shows "\<exists>opened' acc'. sizes_loop fs pf folder dataset t ss (opened, acc) = (opened', Some (Inr acc'))"
  using assms
proof (induction ss arbitrary: opened acc)
  case Nil
  have "sizes_loop fs pf folder dataset t [] (opened, acc) = (opened, Some (Inr acc))"
    by simp
  then show ?case by blast
next
  case (Cons s ss)
  show ?case
  proof (cases "skipped t s")
    case True
    have "sizes_loop fs pf folder dataset t (s # ss) (opened, acc) =
        sizes_loop fs pf folder dataset t ss (opened, acc)"
      using True by (simp add: size_body_eq)
    with Cons.IH [of opened acc] Cons.prems show ?thesis by simp
  next
    case False
    with Cons.prems have "reads_ok fs pf folder dataset t s" by simp
    then obtain new where r: "file_result fs pf folder dataset t s = Some (Inr new)"
      by (rule reads_okD)
    have "sizes_loop fs pf folder dataset t (s # ss) (opened, acc) =
        sizes_loop fs pf folder dataset t ss (opened @ [filename_of folder t s], extended acc new)"
      using False r by (simp add: size_body_eq)
    with Cons.IH [of "opened @ [filename_of folder t s]" "extended acc new"] Cons.prems
    show ?thesis by simp
  qed
qed

lemma sizes_loop_raises:
  assumes ok: "\<forall>s'\<in>set ss1. skipped t s' \<or> reads_ok fs pf folder dataset t s'"
    and ns: "\<not> skipped t s"
    and err: "file_result fs pf folder dataset t s = Some (Inl e)"
  shows "snd (sizes_loop fs pf folder dataset t (ss1 @ s # ss2) (opened, acc)) = Some (Inl e)"
  using ok
proof (induction ss1 arbitrary: opened acc)
  case Nil
  from ns err show ?case by (simp add: size_body_eq)
next
  case (Cons s1 ss1)
  show ?case
  proof (cases "skipped t s1")
    case True
    from Cons.IH [of opened acc] Cons.prems True show ?thesis
      by (simp add: size_body_eq)
  next
    case False
    with Cons.prems have "reads_ok fs pf folder dataset t s1" by simp
    then obtain new where r: "file_result fs pf folder dataset t s1 = Some (Inr new)"
      by (rule reads_okD)
    from Cons.IH [of "opened @ [filename_of folder t s1]" "extended acc new"] Cons.prems False r
    show ?thesis by (simp add: size_body_eq)
  qed
qed

lemma types_loop_raises:
  assumes ok: "\<forall>t'\<in>set ts1. \<forall>s'\<in>set sizes. skipped t' s' \<or> reads_ok fs pf folder dataset t' s'"
    and err: "\<And>opened. snd (sizes_loop fs pf folder dataset t sizes (opened, ([], [], []))) = Some (Inl e)"
  shows "snd (types_loop fs pf folder dataset (ts1 @ t # ts2) sizes (opened, dm)) = Some (Inl e)"
  using ok
proof (induction ts1 arbitrary: opened dm)
  case Nil
  obtain o1 r where sl: "sizes_loop fs pf folder dataset t sizes (opened, ([], [], [])) = (o1, r)"
    by (cases "sizes_loop fs pf folder dataset t sizes (opened, ([], [], []))")
  with err [of opened] have "r = Some (Inl e)" by simp
  with sl show ?case by simp
next
  case (Cons t1 ts1)
  from Cons.prems have "\<forall>s'\<in>set sizes. skipped t1 s' \<or> reads_ok fs pf folder dataset t1 s'"
    by simp
  from sizes_loop_all_ok [OF this, of opened "([], [], [])"]
  obtain o1 acc1 where sl1:
    "sizes_loop fs pf folder dataset t1 sizes (opened, ([], [], [])) = (o1, Some (Inr acc1))"
    by blast
  obtain d m tr where "acc1 = (d, m, tr)" by (cases acc1)
  with sl1 have sl:
    "sizes_loop fs pf folder dataset t1 sizes (opened, ([], [], [])) = (o1, Some (Inr (d, m, tr)))"
    by simp
  obtain D M T where dm: "dm = (D, M, T)" by (cases dm)
  from Cons.IH [of o1 "(D(t1 \<mapsto> d), M(t1 \<mapsto> m), T(t1 \<mapsto> tr))"] Cons.prems sl dm
  show ?case by simp
qed

lemma sizes_loop_returns:
  assumes "snd (sizes_loop fs pf folder dataset t ss (opened, acc)) = Some (Inr r)"
  shows "\<forall>s\<in>set ss. skipped t s \<or> reads_ok fs pf folder dataset t s"
  using assms
proof (induction ss arbitrary: opened acc)
  case Nil
  show ?case by simp
next
  case (Cons s ss)
  show ?case
  proof (cases "skipped t s")
    case True
    with Cons.prems have "snd (sizes_loop fs pf folder dataset t ss (opened, acc)) = Some (Inr r)"
      by (simp add: size_body_eq)
    from Cons.IH [OF this] True show ?thesis by simp
  next
    case False
    show ?thesis
    proof (cases "file_result fs pf folder dataset t s")
      case None
      with Cons.prems False show ?thesis by (simp add: size_body_eq)
    next
      case (Some x)
      show ?thesis
      proof (cases x)
        case (Inl e)
        with Some Cons.prems False show ?thesis by (simp add: size_body_eq)
      next
        case (Inr new)
        with Some Cons.prems False
        have "snd (sizes_loop fs pf folder dataset t ss
            (opened @ [filename_of folder t s], extended acc new)) = Some (Inr r)"
          by (simp add: size_body_eq)
        from Cons.IH [OF this] Some Inr show ?thesis
          by (simp add: reads_ok_def)
      qed
    qed
  qed
qed

lemma types_loop_returns:
  assumes "snd (types_loop fs pf folder dataset ts sizes (opened, dm)) = Some (Inr r)"
  shows "\<forall>t\<in>set ts. \<forall>s\<in>set sizes. skipped t s \<or> reads_ok fs pf folder dataset t s"
  using assms
proof (induction ts arbitrary: opened dm)
  case Nil
  show ?case by simp
next
  case (Cons t ts)
  obtain o1 x where sl: "sizes_loop fs pf folder dataset t sizes (opened, ([], [], [])) = (o1, x)"
    by (cases "sizes_loop fs pf folder dataset t sizes (opened, ([], [], []))")
  obtain D M T where dm: "dm = (D, M, T)" by (cases dm)
  from Cons.prems sl obtain d m tr where x: "x = Some (Inr (d, m, tr))"
    by (cases x; cases "the x") auto
  from sizes_loop_returns [of fs pf folder dataset t sizes opened "([], [], [])" "(d, m, tr)"] sl x
  have a: "\<forall>s\<in>set sizes. skipped t s \<or> reads_ok fs pf folder dataset t s" by simp
  from Cons.prems sl x dm
  have "snd (types_loop fs pf folder dataset ts sizes
      (o1, (D(t \<mapsto> d), M(t \<mapsto> m), T(t \<mapsto> tr)))) = Some (Inr r)"
    by simp
  from Cons.IH [OF this] a show ?case by simp
qed

lemma per_vision_data_raises:
  assumes "snd (types_loop fs pf folder dataset types per_vision_data_sizes
      ([], (Map.empty, Map.empty, Map.empty))) = Some (Inl e)"
  shows "snd (per_vision_data fs pf folder dataset) = Some (Inl e)"
proof -
  obtain o1 x where tl: "types_loop fs pf folder dataset types per_vision_data_sizes
      ([], (Map.empty, Map.empty, Map.empty)) = (o1, x)"
    by (cases "types_loop fs pf folder dataset types per_vision_data_sizes
      ([], (Map.empty, Map.empty, Map.empty))")
  with assms have "x = Some (Inl e)" by simp
  with tl show ?thesis by (simp add: per_vision_data_def)
qed

lemma per_vision_data_returns:
  assumes "snd (per_vision_data fs pf folder dataset) = Some (Inr r)"
  shows "\<exists>dm. snd (types_loop fs pf folder dataset types per_vision_data_sizes
      ([], (Map.empty, Map.empty, Map.empty))) = Some (Inr dm)"
proof -
  obtain o1 x where tl: "types_loop fs pf folder dataset types per_vision_data_sizes
      ([], (Map.empty, Map.empty, Map.empty)) = (o1, x)"
    by (cases "types_loop fs pf folder dataset types per_vision_data_sizes
      ([], (Map.empty, Map.empty, Map.empty))")
  show ?thesis
  proof (cases x)
    case None
    with tl assms show ?thesis by (simp add: per_vision_data_def)
  next
    case (Some y)
    show ?thesis
    proof (cases y)
      case (Inl e)
      with Some tl assms show ?thesis by (simp add: per_vision_data_def)
    next
      case (Inr dm)
      with Some tl have "snd (types_loop fs pf folder dataset types per_vision_data_sizes
          ([], (Map.empty, Map.empty, Map.empty))) = Some (Inr dm)"
        by simp
      then show ?thesis ..
    qed
  qed
qed

lemma file_error_propagates:
  assumes err: "file_result fs pf folder dataset t s = Some (Inl e)"
    and ns: "\<not> skipped t s"
  shows "(\<forall>ts1 ts2 ss1 ss2.
            types = ts1 @ t # ts2 \<and> per_vision_data_sizes = ss1 @ s # ss2
            \<and> (\<forall>t'\<in>set ts1. \<forall>s'\<in>set per_vision_data_sizes.
                  skipped t' s' \<or> reads_ok fs pf folder dataset t' s')
            \<and> (\<forall>s'\<in>set ss1. skipped t s' \<or> reads_ok fs pf folder dataset t s')
            \<longrightarrow> snd (per_vision_data fs pf folder dataset) = Some (Inl e))
       \<and> (t \<in> set types \<and> s \<in> set per_vision_data_sizes
            \<longrightarrow> (\<forall>r. snd (per_vision_data fs pf folder dataset) \<noteq> Some (Inr r)))"
proof (intro conjI allI impI)
  fix ts1 ts2 ss1 ss2
  assume a: "types = ts1 @ t # ts2 \<and> per_vision_data_sizes = ss1 @ s # ss2
            \<and> (\<forall>t'\<in>set ts1. \<forall>s'\<in>set per_vision_data_sizes.
                  skipped t' s' \<or> reads_ok fs pf folder dataset t' s')
            \<and> (\<forall>s'\<in>set ss1. skipped t s' \<or> reads_ok fs pf folder dataset t s')"
  then have ty: "types = ts1 @ t # ts2" and sz: "per_vision_data_sizes = ss1 @ s # ss2"
    and bt: "\<forall>t'\<in>set ts1. \<forall>s'\<in>set per_vision_data_sizes.
                  skipped t' s' \<or> reads_ok fs pf folder dataset t' s'"
    and bs: "\<forall>s'\<in>set ss1. skipped t s' \<or> reads_ok fs pf folder dataset t s'"
    by blast+
  have s: "snd (sizes_loop fs pf folder dataset t per_vision_data_sizes
      (opened, ([], [], []))) = Some (Inl e)" for opened
    using sizes_loop_raises [OF bs ns err, of ss2 opened "([], [], [])"] by (simp only: sz)
  have "snd (types_loop fs pf folder dataset types per_vision_data_sizes
      ([], (Map.empty, Map.empty, Map.empty))) = Some (Inl e)"
    using types_loop_raises [OF bt s, of ts2 "[]" "(Map.empty, Map.empty, Map.empty)"]
    by (simp only: ty)
  then show "snd (per_vision_data fs pf folder dataset) = Some (Inl e)"
    by (rule per_vision_data_raises)
next
  fix r
  assume a: "t \<in> set types \<and> s \<in> set per_vision_data_sizes"
  show "snd (per_vision_data fs pf folder dataset) \<noteq> Some (Inr r)"
  proof
    assume "snd (per_vision_data fs pf folder dataset) = Some (Inr r)"
    from per_vision_data_returns [OF this] obtain dm where
      "snd (types_loop fs pf folder dataset types per_vision_data_sizes
        ([], (Map.empty, Map.empty, Map.empty))) = Some (Inr dm)" ..
    from types_loop_returns [OF this] a ns have "reads_ok fs pf folder dataset t s" by blast
    with err show False by (simp add: reads_ok_def)
  qed
qed

subsection \<open>What a block contributes\<close>

lemma collect_metric_parsed:
  assumes "\<not> is_metric (line1 st) \<or> pf (line2 st) \<noteq> None"
  shows "\<exists>u. collect_metric pf st = Inr u
     \<and> lists_of u = extended (lists_of st) (block_values pf [(line1 st, line2 st)])
     \<and> file_lines u = file_lines st \<and> collect_data u = collect_data st"
  using assms
  by (auto simp: collect_metric_def is_metric_def lists_of_def extended_def block_values_def
      values_for_def List.map_filter_simps)

lemma collect_metric_unparsed:
  assumes "is_metric (line1 st)" "pf (line2 st) = None"
  shows "collect_metric pf st = Inl (ValueError (line2 st))"
  using assms by (auto simp: collect_metric_def is_metric_def)

lemma block_values_Cons:
  "extended (extended acc (block_values pf [p])) (block_values pf ps) =
   extended acc (block_values pf (p # ps))"
  by (cases acc; cases p)
    (simp add: extended_def block_values_def values_for_def List.map_filter_simps
      split: option.splits)

lemma read_at_Cons2:
  "read_at (a # b # tail) 0 = strip a" "read_at (a # b # tail) (Suc 0) = strip b"
  "read_at (a # b # tail) 1 = strip b"
  unfolding read_at_def One_nat_def by (simp_all add: readline_def)

lemma collecting_step:
  assumes c: "collect_data st"
    and f: "file_lines st = a # b # tail"
    and g: "good_pair dataset pf (strip a, strip b)"
  shows "\<exists>u. scan_loop dataset pf st = scan_loop dataset pf u
     \<and> collect_data u \<and> file_lines u = tail
     \<and> lists_of u = extended (lists_of st) (block_values pf [(strip a, strip b)])"
proof -
  have r: "read_at (file_lines st) 0 = strip a" "read_at (file_lines st) 1 = strip b"
    "read_at (file_lines st) (Suc 0) = strip b"
    by (simp_all add: f read_at_Cons2)
  from g have nt: "\<not> is_terminator (read_at (file_lines st) 0)"
    "\<not> is_terminator (read_at (file_lines st) 1)" "read_at (file_lines st) 1 \<noteq> dataset"
    and p: "\<not> is_metric (line1 (after_reads st)) \<or> pf (line2 (after_reads st)) \<noteq> None"
    by (simp_all add: good_pair_def r)
  from collect_metric_parsed [of "after_reads st" pf] p c f r obtain u where
    u: "collect_metric pf (after_reads st) = Inr u"
    "lists_of u = extended (lists_of st) (block_values pf [(strip a, strip b)])"
    "file_lines u = tail" "collect_data u"
    by (auto simp: lists_of_def)
  have "scan_loop dataset pf st = scan_loop dataset pf u"
    by (subst scan_loop.simps) (simp add: scan_body_plain [OF c nt] u(1))
  with u show ?thesis by blast
qed

lemma collecting_extracts:
  assumes "collect_data st"
    and "file_lines st = lines_of_pairs ps @ tail"
    and "list_all (good_pair dataset pf) (stripped ps)"
    and "is_terminator (read_at tail 0) \<or> is_terminator (read_at tail 1)"
    and "\<not> is_metric (read_at tail 0) \<or> pf (read_at tail 1) \<noteq> None"
  shows "\<exists>fin. scan_loop dataset pf st = Some (Inr fin)
     \<and> lists_of fin =
         extended (lists_of st) (block_values pf (stripped ps @ [(read_at tail 0, read_at tail 1)]))
     \<and> file_lines fin = drop 2 tail"
  using assms
proof (induction ps arbitrary: st)
  case Nil
  then have f: "file_lines st = tail" by (simp add: lines_of_pairs_def)
  have t: "is_terminator (read_at (file_lines st) 0) \<or> is_terminator (read_at (file_lines st) 1)"
    using Nil.prems(4) by (simp only: f)
  have p: "\<not> is_metric (line1 (after_reads st)) \<or> pf (line2 (after_reads st)) \<noteq> None"
    using Nil.prems(5) by (simp add: f)
  from collect_metric_parsed [of "after_reads st" pf] p f obtain u where
    u: "collect_metric pf (after_reads st) = Inr u"
    "lists_of u = extended (lists_of st) (block_values pf [(read_at tail 0, read_at tail 1)])"
    "file_lines u = drop 2 tail"
    by (auto simp: lists_of_def)
  have "scan_loop dataset pf st = Some (Inr u)"
    by (subst scan_loop.simps) (simp add: scan_body_terminator [OF Nil.prems(1) t] u(1))
  with u show ?case by (simp add: stripped_def)
next
  case (Cons p ps)
  obtain a b where p: "p = (a, b)" by (cases p)
  from Cons.prems(2) have f: "file_lines st = a # b # (lines_of_pairs ps @ tail)"
    by (simp add: lines_of_pairs_def p)
  from Cons.prems(3) have g: "good_pair dataset pf (strip a, strip b)"
    and gs: "list_all (good_pair dataset pf) (stripped ps)"
    by (simp_all add: stripped_def p)
  from collecting_step [OF Cons.prems(1) f g] obtain u where
    u: "scan_loop dataset pf st = scan_loop dataset pf u" "collect_data u"
    "file_lines u = lines_of_pairs ps @ tail"
    "lists_of u = extended (lists_of st) (block_values pf [(strip a, strip b)])"
    by blast
  from Cons.IH [OF u(2,3) gs Cons.prems(4,5)] obtain fin where
    fin: "scan_loop dataset pf u = Some (Inr fin)"
    "lists_of fin =
       extended (lists_of u) (block_values pf (stripped ps @ [(read_at tail 0, read_at tail 1)]))"
    "file_lines fin = drop 2 tail"
    by blast
  have "lists_of fin = extended (lists_of st)
      (block_values pf (stripped (p # ps) @ [(read_at tail 0, read_at tail 1)]))"
    unfolding fin(2) u(4) block_values_Cons by (simp add: stripped_def p)
  with fin(1,3) u(1) show ?case by simp
qed

lemma collecting_raises:
  assumes "collect_data st"
    and "file_lines st = lines_of_pairs ps @ n # v # rest"
    and "list_all (good_pair dataset pf) (stripped ps)"
    and "is_metric (strip n)"
    and "pf (strip v) = None"
  shows "scan_loop dataset pf st = Some (Inl (ValueError (strip v)))"
  using assms
proof (induction ps arbitrary: st)
  case Nil
  then have f: "file_lines st = n # v # rest" by (simp add: lines_of_pairs_def)
  have "collect_metric pf (after_reads st) = Inl (ValueError (strip v))"
    using collect_metric_unparsed [of "after_reads st" pf] Nil.prems(4,5)
    by (simp add: f read_at_Cons2)
  then show ?case
    using Nil.prems(1) by (subst scan_loop.simps) (simp add: scan_body_reads)
next
  case (Cons p ps)
  obtain a b where p: "p = (a, b)" by (cases p)
  from Cons.prems(2) have f: "file_lines st = a # b # (lines_of_pairs ps @ n # v # rest)"
    by (simp add: lines_of_pairs_def p)
  from Cons.prems(3) have g: "good_pair dataset pf (strip a, strip b)"
    and gs: "list_all (good_pair dataset pf) (stripped ps)"
    by (simp_all add: stripped_def p)
  from collecting_step [OF Cons.prems(1) f g] obtain u where
    u: "scan_loop dataset pf st = scan_loop dataset pf u" "collect_data u"
    "file_lines u = lines_of_pairs ps @ n # v # rest"
    by blast
  from Cons.IH [OF u(2,3) gs Cons.prems(4,5)] u(1) show ?case by simp
qed

lemma searching_marker_first:
  assumes "\<not> collect_data st"
    and "file_lines st = lines_of_pairs pre @ m # x # tail"
    and "list_all (\<lambda>(a, b). a \<noteq> dataset \<and> b \<noteq> dataset) (stripped pre)"
    and "strip m = dataset"
    and "strip x \<noteq> dataset"
  shows "scan_loop dataset pf st =
     scan_loop dataset pf
       (st\<lparr>file_lines := tail, line1 := dataset, line2 := strip x, collect_data := True\<rparr>)"
  using assms
proof (induction pre arbitrary: st)
  case Nil
  then have f: "file_lines st = m # x # tail" by (simp add: lines_of_pairs_def)
  have "marker_first dataset (marker_second dataset (after_reads st)) =
      st\<lparr>file_lines := tail, line1 := dataset, line2 := strip x, collect_data := True\<rparr>"
    using Nil.prems(4,5)
    by (simp add: marker_first_def marker_second_def after_reads_def f read_at_Cons2)
  then show ?case
    by (subst scan_loop.simps) (simp add: scan_body_searching [OF Nil.prems(1)])
next
  case (Cons p pre)
  obtain a b where p: "p = (a, b)" by (cases p)
  from Cons.prems(2) have f: "file_lines st = a # b # (lines_of_pairs pre @ m # x # tail)"
    by (simp add: lines_of_pairs_def p)
  from Cons.prems(3) have ne: "read_at (file_lines st) 0 \<noteq> dataset"
    "read_at (file_lines st) 1 \<noteq> dataset"
    and rest: "list_all (\<lambda>(a, b). a \<noteq> dataset \<and> b \<noteq> dataset) (stripped pre)"
    by (simp_all add: stripped_def p f read_at_Cons2)
  have s: "scan_loop dataset pf st = scan_loop dataset pf (after_reads st)"
    by (subst scan_loop.simps)
      (simp add: scan_body_searching [OF Cons.prems(1)] markers_not_found [OF ne])
  have nc: "\<not> collect_data (after_reads st)" using Cons.prems(1) by simp
  have f': "file_lines (after_reads st) = lines_of_pairs pre @ m # x # tail"
    by (simp add: f)
  have e: "(after_reads st)\<lparr>file_lines := tail, line1 := dataset, line2 := strip x,
        collect_data := True\<rparr> =
      st\<lparr>file_lines := tail, line1 := dataset, line2 := strip x, collect_data := True\<rparr>"
    by (simp add: after_reads_def)
  from Cons.IH [OF nc f' rest Cons.prems(4,5)] s e show ?case by simp
qed

lemma searching_to_block:
  assumes "\<not> collect_data st"
    and "file_lines st = head @ m # x # tail"
    and "\<forall>l\<in>set head. strip l \<noteq> dataset"
    and "strip m = dataset"
    and "strip x \<noteq> dataset"
  shows "scan_loop dataset pf st =
     scan_loop dataset pf
       (st\<lparr>file_lines := tail, line1 := dataset, line2 := strip x, collect_data := True\<rparr>)"
  using assms
proof (induction head arbitrary: st rule: induct_list012)
  case 1
  from searching_marker_first [of st "[]" m x tail dataset pf] 1 show ?case
    by (simp add: lines_of_pairs_def stripped_def)
next
  case (2 l)
  then have f: "file_lines st = l # m # x # tail" by simp
  then have r: "read_at (file_lines st) 1 = dataset" "read_at (file_lines st) 2 = strip x"
    "drop 3 (file_lines st) = tail"
    using "2.prems"(4) by (simp_all add: read_at_def readline_def)
  from marker_second_line_step [OF "2.prems"(1) r(1), of pf] show ?case
    by (simp only: r)
next
  case (3 a b head)
  from "3.prems"(2) have f: "file_lines st = a # b # (head @ m # x # tail)" by simp
  from "3.prems"(3) have ne: "read_at (file_lines st) 0 \<noteq> dataset"
    "read_at (file_lines st) 1 \<noteq> dataset"
    and rest: "\<forall>l\<in>set head. strip l \<noteq> dataset"
    by (simp_all add: f read_at_Cons2)
  have s: "scan_loop dataset pf st = scan_loop dataset pf (after_reads st)"
    by (subst scan_loop.simps)
      (simp add: scan_body_searching [OF "3.prems"(1)] markers_not_found [OF ne])
  have nc: "\<not> collect_data (after_reads st)" using "3.prems"(1) by simp
  have f': "file_lines (after_reads st) = head @ m # x # tail"
    by (simp add: f)
  have e: "(after_reads st)\<lparr>file_lines := tail, line1 := dataset, line2 := strip x,
        collect_data := True\<rparr> =
      st\<lparr>file_lines := tail, line1 := dataset, line2 := strip x, collect_data := True\<rparr>"
    by (simp add: after_reads_def)
  from "3.IH"(1) [OF nc f' rest "3.prems"(4,5)] s e show ?case by simp
qed

text \<open>
  C3, amended: when the scan does not collect yet and the marker is the second line of the
  pair read, the iteration reads exactly one more line, which becomes the second line of the
  pair while the marker becomes the first, sets the flag \<^verbatim>\<open>collect_data\<close>, and the loop goes
  on from the line after the one just read. So the pairs after that line are extracted: if
  these lines are pairs \<open>ps\<close> without an empty line, a line starting with a dash or a marker
  as second line, whose metric values all convert, followed by a pair that ends the block,
  then the scan returns, and its three lists are the lists it started with followed by the
  values of the metric pairs of \<open>ps\<close> and of the ending pair, in order.
\<close>

theorem marker_second_line:
  assumes nc: "\<not> collect_data st" and m: "read_at (file_lines st) 1 = dataset"
  shows "scan_body dataset pf st =
           Inr (Next (st\<lparr>file_lines := drop 3 (file_lines st), line1 := dataset,
                          line2 := read_at (file_lines st) 2, collect_data := True\<rparr>))
         \<and> scan_loop dataset pf st =
           scan_loop dataset pf
             (st\<lparr>file_lines := drop 3 (file_lines st), line1 := dataset,
                  line2 := read_at (file_lines st) 2, collect_data := True\<rparr>)
         \<and> (\<forall>ps tail.
               drop 3 (file_lines st) = lines_of_pairs ps @ tail
               \<and> list_all (good_pair dataset pf) (stripped ps)
               \<and> (is_terminator (read_at tail 0) \<or> is_terminator (read_at tail 1))
               \<and> (\<not> is_metric (read_at tail 0) \<or> pf (read_at tail 1) \<noteq> None)
               \<longrightarrow> (\<exists>fin. scan_loop dataset pf st = Some (Inr fin)
                     \<and> lists_of fin =
                         extended (lists_of st)
                           (block_values pf (stripped ps @ [(read_at tail 0, read_at tail 1)]))
                     \<and> file_lines fin = drop 2 tail))"
proof -
  let ?st' = "st\<lparr>file_lines := drop 3 (file_lines st), line1 := dataset,
      line2 := read_at (file_lines st) 2, collect_data := True\<rparr>"
  note step = marker_second_line_step [OF nc m, of pf]
  have ex: "\<exists>fin. scan_loop dataset pf st = Some (Inr fin)
       \<and> lists_of fin =
           extended (lists_of st)
             (block_values pf (stripped ps @ [(read_at tail 0, read_at tail 1)]))
       \<and> file_lines fin = drop 2 tail"
    if h: "drop 3 (file_lines st) = lines_of_pairs ps @ tail
        \<and> list_all (good_pair dataset pf) (stripped ps)
        \<and> (is_terminator (read_at tail 0) \<or> is_terminator (read_at tail 1))
        \<and> (\<not> is_metric (read_at tail 0) \<or> pf (read_at tail 1) \<noteq> None)"
    for ps tail
  proof -
    have c: "collect_data ?st'" by simp
    have f: "file_lines ?st' = lines_of_pairs ps @ tail" using h by simp
    have l: "lists_of ?st' = lists_of st" by (simp add: lists_of_def)
    from collecting_extracts [OF c f, of dataset pf] h l step show ?thesis
      by simp
  qed
  from step ex show ?thesis by blast
qed

theorem marker_second_line_witness:
  "\<not> collect_data (init_state second_marker_file ([], [], []) :: rat scan_state)
   \<and> read_at (file_lines (init_state second_marker_file ([], [], []) :: rat scan_state)) 1 = dataset_cif
   \<and> scan_file dataset_cif float_dec second_marker_file ([], [], []) = Some (Inr ([3 / 2], [], []))"
proof -
  let ?st = "init_state second_marker_file ([], [], []) :: rat scan_state"
  let ?ps = "[(''disparity\<newline>'', ''1.5\<newline>'')]"
  let ?tail = "[''\<newline>'']"
  have h1: "\<not> collect_data ?st" by simp
  have h2: "read_at (file_lines ?st) 1 = dataset_cif" by code_simp
  have f: "drop 3 (file_lines ?st) = lines_of_pairs ?ps @ ?tail" by code_simp
  have g: "list_all (good_pair dataset_cif float_dec) (stripped ?ps)" by code_simp
  have t: "is_terminator (read_at ?tail 0) \<or> is_terminator (read_at ?tail 1)" by code_simp
  have p: "\<not> is_metric (read_at ?tail 0) \<or> float_dec (read_at ?tail 1) \<noteq> None" by code_simp
  have v: "extended (lists_of ?st)
      (block_values float_dec (stripped ?ps @ [(read_at ?tail 0, read_at ?tail 1)])) =
      ([3 / 2], [], [])"
    by code_simp
  from marker_second_line [OF h1 h2, of float_dec] f g t p
  obtain fin where "scan_loop dataset_cif float_dec ?st = Some (Inr fin)"
    "lists_of fin = extended (lists_of ?st)
      (block_values float_dec (stripped ?ps @ [(read_at ?tail 0, read_at ?tail 1)]))"
    by blast
  with v have "scan_file dataset_cif float_dec second_marker_file ([], [], []) =
      Some (Inr ([3 / 2], [], []))"
    by (simp add: scan_file_def result_lists_def)
  with h1 h2 show ?thesis by blast
qed

lemma unparsable_file_result:
  assumes f: "fs (filename_of folder t s) =
      Some (head @ m # x # lines_of_pairs ps @ n # v # rest)"
    and h: "\<forall>l\<in>set head. strip l \<noteq> dataset"
    and m: "strip m = dataset"
    and x: "strip x \<noteq> dataset"
    and g: "list_all (good_pair dataset pf) (stripped ps)"
    and n: "is_metric (strip n)"
    and v: "pf (strip v) = None"
  shows "file_result fs pf folder dataset t s = Some (Inl (ValueError (strip v)))"
proof -
  let ?ls = "head @ m # x # lines_of_pairs ps @ n # v # rest"
  let ?st = "init_state ?ls ([], [], [])"
  let ?st' = "?st\<lparr>file_lines := lines_of_pairs ps @ n # v # rest, line1 := dataset,
      line2 := strip x, collect_data := True\<rparr>"
  have nc: "\<not> collect_data ?st" by simp
  have fl: "file_lines ?st = head @ m # x # (lines_of_pairs ps @ n # v # rest)" by simp
  have s: "scan_loop dataset pf ?st = scan_loop dataset pf ?st'"
    by (rule searching_to_block [OF nc fl h m x])
  have c: "collect_data ?st'" by simp
  have fl': "file_lines ?st' = lines_of_pairs ps @ n # v # rest" by simp
  from collecting_raises [OF c fl' g n v] s
  have "scan_loop dataset pf ?st = Some (Inl (ValueError (strip v)))" by simp
  then show ?thesis
    by (simp add: file_result_def f scan_file_def result_lists_def)
qed

text \<open>
  C9: let the file of \<open>(t, s)\<close>, which is not skipped, be missing, or hold lines without
  the marker, then the marker, one more line, pairs as in a well-formed block, and then a
  metric name followed by a value that \<^verbatim>\<open>float\<close> rejects. Let \<open>e\<close> be the
  \<^verbatim>\<open>FileNotFoundError\<close> of the file name, or the \<^verbatim>\<open>ValueError\<close> of that value. If every file
  opened before this one is read without an error, \<^verbatim>\<open>per_vision_data\<close> raises \<open>e\<close> itself; and
  in any case, if \<open>t\<close> and \<open>s\<close> are among the access patterns and sizes, \<^verbatim>\<open>per_vision_data\<close>
  returns no result.
\<close>

theorem errors_propagate:
  assumes ns: "\<not> skipped t s"
    and bad: "fs (filename_of folder t s) = None \<and> e = FileNotFoundError (filename_of folder t s)
       \<or> fs (filename_of folder t s) = Some (head @ m # x # lines_of_pairs ps @ n # v # rest)
         \<and> (\<forall>l\<in>set head. strip l \<noteq> dataset) \<and> strip m = dataset \<and> strip x \<noteq> dataset
         \<and> list_all (good_pair dataset pf) (stripped ps)
         \<and> is_metric (strip n) \<and> pf (strip v) = None
         \<and> e = ValueError (strip v)"
  shows "(\<forall>ts1 ts2 ss1 ss2.
            types = ts1 @ t # ts2 \<and> per_vision_data_sizes = ss1 @ s # ss2
            \<and> (\<forall>t'\<in>set ts1. \<forall>s'\<in>set per_vision_data_sizes.
                  skipped t' s' \<or> reads_ok fs pf folder dataset t' s')
            \<and> (\<forall>s'\<in>set ss1. skipped t s' \<or> reads_ok fs pf folder dataset t s')
            \<longrightarrow> snd (per_vision_data fs pf folder dataset) = Some (Inl e))
       \<and> (t \<in> set types \<and> s \<in> set per_vision_data_sizes
            \<longrightarrow> (\<forall>r. snd (per_vision_data fs pf folder dataset) \<noteq> Some (Inr r)))"
proof -
  from bad have "file_result fs pf folder dataset t s = Some (Inl e)"
  proof
    assume "fs (filename_of folder t s) = None \<and> e = FileNotFoundError (filename_of folder t s)"
    then show ?thesis by (simp add: file_result_def)
  next
    assume a: "fs (filename_of folder t s) = Some (head @ m # x # lines_of_pairs ps @ n # v # rest)
         \<and> (\<forall>l\<in>set head. strip l \<noteq> dataset) \<and> strip m = dataset \<and> strip x \<noteq> dataset
         \<and> list_all (good_pair dataset pf) (stripped ps)
         \<and> is_metric (strip n) \<and> pf (strip v) = None
         \<and> e = ValueError (strip v)"
    then have "file_result fs pf folder dataset t s = Some (Inl (ValueError (strip v)))"
      by (intro unparsable_file_result [where head = head and m = m and x = x and ps = ps
            and n = n and rest = rest]) blast+
    with a show ?thesis by simp
  qed
  then show ?thesis
    by (rule file_error_propagates [OF _ ns])
qed

theorem errors_propagate_witness:
  "snd (per_vision_data baseline_only_fs float_dec ''/data'' dataset_cif) =
     Some (Inl (FileNotFoundError ''/data/read_8.txt''))
   \<and> snd (per_vision_data garbled_fs float_dec ''/data'' dataset_cif) =
     Some (Inl (ValueError ''abc''))"
proof -
  let ?rest = "[16, 24, 32, 40, 48, 56, 64, 96, 128, 160, 192, 224, 256, 288, 320, 352,
      384, 416, 448, 480, 512, 1024, 1536, 2048, 2560, 3072, 3584, 4096, 4608,
      5120, 5632, 6144, 6656, 7168, 7680, 8192] :: int list"
  have sz: "per_vision_data_sizes = [] @ 8 # ?rest" by (simp add: sizes_value)
  have good: "scan_file dataset_cif float_dec (block_file dataset_cif ''header\<newline>'') ([], [], []) =
      Some (Inr ([3 / 2], [2], [1 / 2]))"
    by code_simp
  have fn: "filename_of ''/data'' ''none'' 8 = ''/data/none_8.txt''"
    "filename_of ''/data'' ''read'' 8 = ''/data/read_8.txt''"
    by (simp_all add: filename_of_def str_8)
  have ns: "\<not> skipped ''read'' 8" "\<not> skipped ''none'' 8" by (simp_all add: skipped_def)
  have bad1: "baseline_only_fs (filename_of ''/data'' ''read'' 8) = None
      \<and> FileNotFoundError ''/data/read_8.txt'' = FileNotFoundError (filename_of ''/data'' ''read'' 8)
    \<or> baseline_only_fs (filename_of ''/data'' ''read'' 8) =
        Some ([] @ [] # [] # lines_of_pairs [] @ [] # [] # [])
      \<and> (\<forall>l\<in>set []. strip l \<noteq> dataset_cif) \<and> strip [] = dataset_cif \<and> strip [] \<noteq> dataset_cif
      \<and> list_all (good_pair dataset_cif float_dec) (stripped [])
      \<and> is_metric (strip []) \<and> float_dec (strip []) = None
      \<and> FileNotFoundError ''/data/read_8.txt'' = ValueError (strip [])"
    by (simp add: baseline_only_fs_def fn)
  have ok: "reads_ok baseline_only_fs float_dec ''/data'' dataset_cif ''none'' 8"
    by (simp add: reads_ok_def file_result_def baseline_only_fs_def fn good)
  have t1: "types = [''none''] @ ''read'' # [''write'', ''modify'', ''prefetch_l3'']"
    by (simp add: types_def)
  have b1: "\<forall>t'\<in>set [''none'']. \<forall>s'\<in>set per_vision_data_sizes.
      skipped t' s' \<or> reads_ok baseline_only_fs float_dec ''/data'' dataset_cif t' s'"
    using ok by (simp add: sizes_value skipped_def)
  have r1: "snd (per_vision_data baseline_only_fs float_dec ''/data'' dataset_cif) =
      Some (Inl (FileNotFoundError ''/data/read_8.txt''))"
    using errors_propagate [where fs = baseline_only_fs and pf = float_dec
        and folder = "''/data''" and dataset = dataset_cif and t = "''read''" and s = 8
        and e = "FileNotFoundError ''/data/read_8.txt''" and head = "[]" and m = "[]"
        and x = "[]" and ps = "[]" and n = "[]" and v = "[]" and rest = "[]", OF ns(1) bad1]
      t1 sz b1
    by (metis empty_iff empty_set)
  have c: "strip (dataset_cif @ ''\<newline>'') = dataset_cif" "strip ''header\<newline>'' \<noteq> dataset_cif"
    "is_metric (strip ''disparity\<newline>'')" "float_dec (strip ''abc\<newline>'') = None"
    "strip ''abc\<newline>'' = ''abc''"
    by code_simp+
  have bad2: "garbled_fs (filename_of ''/data'' ''none'' 8) = None
      \<and> ValueError ''abc'' = FileNotFoundError (filename_of ''/data'' ''none'' 8)
    \<or> garbled_fs (filename_of ''/data'' ''none'' 8) =
        Some ([] @ (dataset_cif @ ''\<newline>'') # ''header\<newline>'' # lines_of_pairs [] @
          ''disparity\<newline>'' # ''abc\<newline>'' # [''\<newline>''])
      \<and> (\<forall>l\<in>set []. strip l \<noteq> dataset_cif) \<and> strip (dataset_cif @ ''\<newline>'') = dataset_cif
      \<and> strip ''header\<newline>'' \<noteq> dataset_cif
      \<and> list_all (good_pair dataset_cif float_dec) (stripped [])
      \<and> is_metric (strip ''disparity\<newline>'') \<and> float_dec (strip ''abc\<newline>'') = None
      \<and> ValueError ''abc'' = ValueError (strip ''abc\<newline>'')"
    using c by (simp add: garbled_fs_def text_file_def lines_of_pairs_def stripped_def)
  have t2: "types = [] @ ''none'' # [''read'', ''write'', ''modify'', ''prefetch_l3'']"
    by (simp add: types_def)
  have r2: "snd (per_vision_data garbled_fs float_dec ''/data'' dataset_cif) =
      Some (Inl (ValueError ''abc''))"
    using errors_propagate [where fs = garbled_fs and pf = float_dec
        and folder = "''/data''" and dataset = dataset_cif and t = "''none''" and s = 8
        and e = "ValueError ''abc''" and head = "[]" and m = "dataset_cif @ ''\<newline>''"
        and x = "''header\<newline>''" and ps = "[]" and n = "''disparity\<newline>''"
        and v = "''abc\<newline>''" and rest = "[''\<newline>'']", OF ns(2) bad2]
      t2 sz
    by (metis empty_iff empty_set)
  from r1 r2 show ?thesis ..
qed

subsection \<open>The normalizer\<close>

lemma float_div_nonzero: "\<not> is_zero b \<Longrightarrow> float_div a b = Inr (float_quot a b)"
  by (simp add: float_div_def)

lemma div_loop_upt:
  "1 \<le> k \<Longrightarrow> k \<le> length arr \<Longrightarrow> \<not> is_zero (arr ! 0) \<Longrightarrow>
   div_loop [k..<length arr] arr =
     Inr (take k arr @ map (\<lambda>x. float_quot x (arr ! 0)) (drop k arr))"
proof (induction "length arr - k" arbitrary: arr k)
  case 0
  then show ?case by simp
next
  case (Suc d)
  let ?arr' = "arr[k := float_quot (arr ! k) (arr ! 0)]"
  from Suc.hyps(2) have lt: "k < length arr" by simp
  have z: "?arr' ! 0 = arr ! 0" using Suc.prems(1) by simp
  have d: "d = length ?arr' - Suc k" using Suc.hyps(2) by simp
  have ih: "div_loop [Suc k..<length ?arr'] ?arr' =
      Inr (take (Suc k) ?arr' @ map (\<lambda>x. float_quot x (?arr' ! 0)) (drop (Suc k) ?arr'))"
    using Suc.hyps(1) [OF d] lt Suc.prems(3) z by simp
  have tk: "take (Suc k) ?arr' = take k arr @ [float_quot (arr ! k) (arr ! 0)]"
    using lt by (simp add: take_Suc_conv_app_nth)
  have dr: "drop k arr = arr ! k # drop (Suc k) arr"
    using lt by (simp add: Cons_nth_drop_Suc)
  have "div_loop [k..<length arr] arr = div_loop [Suc k..<length ?arr'] ?arr'"
    using lt Suc.prems(3) by (simp add: upt_conv_Cons float_div_nonzero)
  also have "\<dots> = Inr (take k arr @ map (\<lambda>x. float_quot x (arr ! 0)) (drop k arr))"
    unfolding ih tk dr z by simp
  finally show ?case .
qed

lemma div_loop_all:
  "1 \<le> length arr \<Longrightarrow> \<not> is_zero (arr ! 0) \<Longrightarrow>
   div_loop [1..<length arr] arr = Inr (arr ! 0 # map (\<lambda>x. float_quot x (arr ! 0)) (tl arr))"
  using div_loop_upt [of 1 arr] by (cases arr) (simp_all add: drop_Suc)

lemma round_double_one: "round_double False 1 = Finite False 1"
  by code_simp

lemma float_quot_self:
  assumes "is_finite x" "\<not> is_zero x"
  shows "float_quot x x = Finite False 1"
proof -
  from assms obtain s r where x: "x = Finite s r" and r: "r \<noteq> 0"
    by (cases x) (auto simp: is_finite_def is_zero_def)
  then show ?thesis
    by (simp add: float_quot_def round_double_one)
qed

lemma percent_change_result:
  assumes len: "2 \<le> length arr"
    and nz: "\<not> is_zero (if float_gt (arr ! 0) (arr ! 1) then arr ! 1 else arr ! 0)"
  shows "percent_change arr =
     Inr (PyInt 1 #
       map (\<lambda>x. PyFloat (float_quot x (if float_gt (arr ! 0) (arr ! 1) then arr ! 1 else arr ! 0)))
         (tl arr))"
proof -
  let ?b = "if float_gt (arr ! 0) (arr ! 1) then arr ! 1 else arr ! 0"
  let ?arr1 = "if float_gt (arr ! 0) (arr ! 1) then arr[0 := arr ! 1] else arr"
  obtain x y zs where arr: "arr = x # y # zs"
    using len by (cases arr; cases "tl arr") auto
  have b: "?arr1 ! 0 = ?b" by (simp add: arr)
  have t: "tl ?arr1 = tl arr" by (simp add: arr)
  have l: "length ?arr1 = length arr" by simp
  have "div_loop [1..<length ?arr1] ?arr1 =
      Inr (?arr1 ! 0 # map (\<lambda>x. float_quot x (?arr1 ! 0)) (tl ?arr1))"
  proof (rule div_loop_all)
    show "1 \<le> length ?arr1" using len by simp
    show "\<not> is_zero (?arr1 ! 0)" unfolding b by (rule nz)
  qed
  then have dl: "div_loop [1..<length ?arr1] ?arr1 =
      Inr (?b # map (\<lambda>x. float_quot x ?b) (tl arr))"
    by (simp only: b t)
  show ?thesis
    using len dl by (simp add: percent_change_def Let_def comp_def del: div_loop.simps)
qed

text \<open>
  C5, as the claim states it, fails: on the list of 5.0 and minus infinity, which has two
  elements and the nonzero baseline minus infinity after the replacement, element 1 of the
  result is minus infinity divided by itself, which is not-a-number and not 1.0.
\<close>

theorem percent_change_minus_infinity:
  "2 \<le> length [Finite False 5, Infinite True]
   \<and> float_gt (Finite False 5) (Infinite True)
   \<and> \<not> is_zero (Infinite True)
   \<and> percent_change [Finite False 5, Infinite True] = Inr [PyInt 1, PyFloat NaN]
   \<and> \<not> num_eq (PyFloat NaN) (PyFloat (Finite False 1))"
proof -
  have g: "float_gt (Finite False 5) (Infinite True)" by (simp add: float_gt_def)
  have z: "\<not> is_zero (Infinite True)" by (simp add: is_zero_def)
  have "percent_change [Finite False 5, Infinite True] =
      Inr [PyInt 1, PyFloat (float_quot (Infinite True) (Infinite True))]"
    using percent_change_result [of "[Finite False 5, Infinite True]"] g z by simp
  then show ?thesis
    using g z by (simp add: float_quot_def num_eq_def)
qed

text \<open>
  C5, amended: for a list of floats with at least two elements whose baseline, after the
  replacement of \<^verbatim>\<open>arr[0]\<close> by a smaller \<^verbatim>\<open>arr[1]\<close>, is not a zero, \<^verbatim>\<open>percent_change\<close>
  returns the list whose element 0 is the \<^verbatim>\<open>int\<close> 1 and whose other elements are the original
  ones divided, as floats, by that baseline. So element 0 of the result is 1, which equals
  1.0; and element 1 is exactly 1.0 when the original element 1 was smaller than the original
  element 0 and is finite.
\<close>

theorem percent_change_normalizes:
  assumes len: "2 \<le> length arr"
    and nz: "\<not> is_zero (if float_gt (arr ! 0) (arr ! 1) then arr ! 1 else arr ! 0)"
  shows "\<exists>res. percent_change arr = Inr res
     \<and> res = PyInt 1 #
         map (\<lambda>x. PyFloat (float_quot x (if float_gt (arr ! 0) (arr ! 1) then arr ! 1 else arr ! 0)))
           (tl arr)
     \<and> length res = length arr
     \<and> res ! 0 = PyInt 1
     \<and> num_eq (res ! 0) (PyFloat (Finite False 1))
     \<and> (float_gt (arr ! 0) (arr ! 1) \<and> is_finite (arr ! 1) \<longrightarrow> res ! 1 = PyFloat (Finite False 1))"
proof -
  obtain x y zs where arr: "arr = x # y # zs"
    using len by (cases arr; cases "tl arr") auto
  have one: "float_gt x y \<and> is_finite y \<longrightarrow> float_quot y y = Finite False 1"
    using nz float_quot_self [of y] by (auto simp: arr)
  from percent_change_result [OF len nz] one show ?thesis
    by (auto simp: arr num_eq_def signed_def)
qed

theorem percent_change_normalizes_witness:
  "2 \<le> length [Finite False 3, Finite False 2, Finite False 4]
   \<and> \<not> is_zero (if float_gt ([Finite False 3, Finite False 2, Finite False 4] ! 0)
                      ([Finite False 3, Finite False 2, Finite False 4] ! 1)
                 then [Finite False 3, Finite False 2, Finite False 4] ! 1
                 else [Finite False 3, Finite False 2, Finite False 4] ! 0)
   \<and> percent_change [Finite False 3, Finite False 2, Finite False 4] =
       Inr [PyInt 1, PyFloat (Finite False 1), PyFloat (Finite False 2)]"
proof -
  have g: "float_gt (Finite False 3) (Finite False 2)" by (simp add: float_gt_def signed_def)
  have z: "\<not> is_zero (Finite False 2)" by (simp add: is_zero_def)
  have q: "float_quot (Finite False 2) (Finite False 2) = Finite False 1"
    "float_quot (Finite False 4) (Finite False 2) = Finite False 2"
    by code_simp+
  from percent_change_normalizes [of "[Finite False 3, Finite False 2, Finite False 4]"] g z q
  show ?thesis by simp
qed

lemma percent_change_rounds:
  "percent_change [Finite False 3, Finite False 4] =
     Inr [PyInt 1, PyFloat (Finite False (6004799503160661 / 2 ^ 52))]"
proof -
  have g: "\<not> float_gt (Finite False 3) (Finite False 4)" by (simp add: float_gt_def signed_def)
  have z: "\<not> is_zero (Finite False 3)" by (simp add: is_zero_def)
  have q: "float_quot (Finite False 4) (Finite False 3) = Finite False (6004799503160661 / 2 ^ 52)"
    by code_simp
  from percent_change_result [of "[Finite False 3, Finite False 4]"] g z q
  show ?thesis by simp
qed

end
